theory Spec2Isabelle
  imports Main "HOL-Library.Word"
begin

section \<open>Data model of \<^verbatim>\<open>run.py\<close>\<close>

text \<open>
  A shallow embedding of the chunked storage engine of \<^verbatim>\<open>run.py\<close>: the two registries,
  the memory counter guarded by \<^verbatim>\<open>memory_condition\<close>, the three worker functions
  \<^verbatim>\<open>save_file\<close>, \<^verbatim>\<open>read_file\<close>, \<^verbatim>\<open>delete_file\<close> and the three handlers
  \<^verbatim>\<open>handle_put_command\<close>, \<^verbatim>\<open>handle_get_command\<close>, \<^verbatim>\<open>handle_delete_command\<close>.

  One handler invocation is modelled as a function on the shared state, run without
  interference from other threads. What the handler cannot decide by itself is read from
  the state: the file system is a map from paths to contents, and the outcome of every
  timed lock acquisition and of every fallible I/O call is taken from a script of
  booleans (one list per kind of call, consumed in call order; an exhausted script means
  success). A handler that would spin forever returns \<open>None\<close>.

  The handlers are modelled from the point where the command line has been split and the
  arguments checked (\<^verbatim>\<open>words[1]\<close> for put, the parsed integer for get and delete).
\<close>

type_synonym byte = "8 word"
type_synonym bytes = "byte list"

text \<open>\<^verbatim>\<open>class File\<close> (lines 11-16).\<close>

record File =
  file_id :: nat
  name :: string
  status :: bool
  part_count :: nat

text \<open>\<^verbatim>\<open>class FilePart\<close> (lines 26-33); \<^verbatim>\<open>hash\<close> is \<^verbatim>\<open>None\<close> until the part is saved.\<close>

record FilePart =
  part_id :: nat
  parent_id :: nat
  path :: string
  hash :: "string option"
  part_status :: bool
  index :: nat

text \<open>
  The configuration read by \<^verbatim>\<open>load_config\<close> (lines 44-51): the directory string and the
  memory limit in bytes (\<^verbatim>\<open>max_memory * 1024 * 1024\<close>).
\<close>

record config =
  parts_directory :: string
  memory_limit :: int

text \<open>
  \<^verbatim>\<open>zlib.compress\<close>, \<^verbatim>\<open>zlib.decompress\<close> and \<^verbatim>\<open>hashlib.md5(...).hexdigest()\<close> are library
  functions outside the repository; they are parameters of the model. \<open>decompress\<close>
  returns \<open>None\<close> where \<^verbatim>\<open>zlib.decompress\<close> raises \<^verbatim>\<open>zlib.error\<close>.
\<close>

record lib =
  compress :: "bytes \<Rightarrow> bytes"
  decompress :: "bytes \<Rightarrow> bytes option"
  md5 :: "bytes \<Rightarrow> string"

text \<open>
  The shared state: \<^verbatim>\<open>FileRegistry\<close> (lines 19-23), \<^verbatim>\<open>FilePartRegistry\<close> (lines 36-40),
  \<^verbatim>\<open>memory_usage\<close> (line 65), the file system, and the scripts of the environment:
  \<^item> \<open>file_lock_ok\<close>: \<^verbatim>\<open>file_registry.id_lock.acquire(timeout=5)\<close> (line 105);
  \<^item> \<open>part_lock_ok\<close>: \<^verbatim>\<open>file_part_registry.id_lock.acquire(timeout=5)\<close> (line 137);
  \<^item> \<open>cond_reserve_ok\<close>: \<^verbatim>\<open>memory_condition.acquire(timeout=5)\<close> before a reservation
    (lines 124, 217);
  \<^item> \<open>cond_release_ok\<close>: \<^verbatim>\<open>memory_condition.acquire(timeout=5)\<close> before a release
    (lines 139, 170, 185, 238, 248, 260);
  \<^item> \<open>io_ok\<close>: opening and reading the source, opening the destination, and each call of
    the worker pool (\<^verbatim>\<open>starmap\<close>, \<^verbatim>\<open>map\<close>); \<open>False\<close> is an exception raised by the call.
\<close>

record state =
  file_next_id :: nat
  files :: "nat \<rightharpoonup> File"
  part_next_id :: nat
  parts :: "nat \<rightharpoonup> FilePart list"
  memory_usage :: int
  disk :: "string \<rightharpoonup> bytes"
  file_lock_ok :: "bool list"
  part_lock_ok :: "bool list"
  cond_reserve_ok :: "bool list"
  cond_release_ok :: "bool list"
  io_ok :: "bool list"

text \<open>The next outcome of a script; an exhausted script answers success.\<close>

fun pop :: "bool list \<Rightarrow> bool \<times> bool list" where
  "pop [] = (True, [])"
| "pop (b # bs) = (b, bs)"

text \<open>\<^verbatim>\<open>set_constants\<close> (lines 53-55).\<close>

definition part_size :: nat where
  "part_size = 1024"

definition batch_size :: nat where
  "batch_size = 10"

text \<open>\<^verbatim>\<open>needed_memory = self.part_size * self.batch_size\<close> (lines 123, 216).\<close>

definition needed_memory :: int where
  "needed_memory = int (part_size * batch_size)"

text \<open>
  How a handler invocation ends. \<open>Completed\<close>: the main path ran to its end (line 180 for
  put, the end of the loop for get, line 302 for delete). \<open>FileIdLockTimeout\<close>: line 106.
  \<open>PartIdLockTimeout\<close>: line 138. \<open>HashMismatch\<close>: line 237. \<open>Failed\<close>: an exception
  caught by the handler (lines 181, 256, 303). \<open>NotFound\<close>, \<open>NotReady\<close>: the lookups at
  lines 203-209 and 277-283. \<open>Uncaught\<close>: a \<^verbatim>\<open>KeyError\<close> raised outside the \<^verbatim>\<open>try\<close>
  (lines 210, 285).
\<close>

datatype result =
  Completed | FileIdLockTimeout | PartIdLockTimeout | HashMismatch | Failed
  | NotFound | NotReady | Uncaught

text \<open>Control flow out of a loop body: fall through, \<^verbatim>\<open>return\<close>, or an exception.\<close>

datatype 'a flow = Next 'a state | Return result state | Raise state

section \<open>Part paths\<close>

text \<open>Python's \<^verbatim>\<open>str\<close> of a non-negative integer, as the f-string of line 30 formats it.\<close>

definition digit_char :: "nat \<Rightarrow> char" where
  "digit_char d = ''0123456789'' ! d"

function str_nat :: "nat \<Rightarrow> string" where
  "str_nat n = (if n < 10 then [digit_char n] else str_nat (n div 10) @ [digit_char (n mod 10)])"
  by pat_completeness auto
termination
  by (relation "measure id") auto

declare str_nat.simps [simp del]

text \<open>\<^verbatim>\<open>FilePart.__init__\<close> (lines 27-33): \<^verbatim>\<open>self.path = f"{parent_id}_{index}.PART"\<close>.\<close>

definition new_part :: "nat \<Rightarrow> nat \<Rightarrow> string option \<Rightarrow> bool \<Rightarrow> nat \<Rightarrow> FilePart" where
  "new_part i p h st idx =
     \<lparr>part_id = i, parent_id = p, path = str_nat p @ ''_'' @ str_nat idx @ ''.PART'',
      hash = h, part_status = st, index = idx\<rparr>"

section \<open>Memory admission\<close>

text \<open>
  The predicate of \<^verbatim>\<open>wait_for\<close> (lines 126, 219), the grant
  \<^verbatim>\<open>self.memory_usage += needed_memory\<close> (lines 129, 222) and the release
  \<^verbatim>\<open>self.memory_usage -= needed_memory\<close> (lines 142, 173, 188, 241, 251, 263).
\<close>

definition admissible :: "config \<Rightarrow> state \<Rightarrow> bool" where
  "admissible cfg s = (memory_usage s + needed_memory < memory_limit cfg)"

definition grant :: "state \<Rightarrow> state" where
  "grant s = s\<lparr>memory_usage := memory_usage s + needed_memory\<rparr>"

definition release :: "state \<Rightarrow> state" where
  "release s = s\<lparr>memory_usage := memory_usage s - needed_memory\<rparr>"

text \<open>
  Leaving a reserved batch early (lines 139-146 of put, 238-245 of get): the lock of the
  condition is acquired with a timeout; when that fails the handler returns without
  giving the reservation back.
\<close>

definition abort_release :: "result \<Rightarrow> state \<Rightarrow> result \<times> state" where
  "abort_release r s =
     (case pop (cond_release_ok s) of (ok, rest) \<Rightarrow>
        if \<not> ok then (r, s\<lparr>cond_release_ok := rest\<rparr>)
        else (r, release (s\<lparr>cond_release_ok := rest\<rparr>)))"

text \<open>
  The \<^verbatim>\<open>except Exception\<close> blocks of put and get (lines 181-190 and 256-265), which are the
  same code: nothing to release when \<^verbatim>\<open>locked_memory\<close> is false, otherwise as above.
\<close>

definition on_exception :: "bool \<Rightarrow> state \<Rightarrow> result \<times> state" where
  "on_exception locked_memory s =
     (if \<not> locked_memory then (Failed, s) else abort_release Failed s)"

text \<open>
  The release at the end of a batch (lines 170-176 and 248-254): on a timeout the loop
  \<^verbatim>\<open>continue\<close>s with \<^verbatim>\<open>locked_memory\<close> still true and the usage not decremented. The
  result is the new value of \<^verbatim>\<open>locked_memory\<close> and the state.
\<close>

definition batch_release :: "state \<Rightarrow> bool \<times> state" where
  "batch_release s =
     (case pop (cond_release_ok s) of (ok, rest) \<Rightarrow>
        if \<not> ok then (True, s\<lparr>cond_release_ok := rest\<rparr>)
        else (False, release (s\<lparr>cond_release_ok := rest\<rparr>)))"

section \<open>Worker functions\<close>

text \<open>
  \<^verbatim>\<open>save_file\<close> (lines 315-320): the digest of the data as given, the compressed bytes
  written to the path.
\<close>

definition save_file :: "lib \<Rightarrow> bytes \<Rightarrow> string \<Rightarrow> (string \<rightharpoonup> bytes) \<Rightarrow> string \<times> (string \<rightharpoonup> bytes)" where
  "save_file l data p d = (md5 l data, d(p \<mapsto> compress l data))"

text \<open>
  \<^verbatim>\<open>read_file\<close> (lines 323-330). \<open>None\<close>: an exception (the file is missing, or
  \<^verbatim>\<open>zlib.decompress\<close> raises).
\<close>

definition read_file :: "lib \<Rightarrow> string option \<Rightarrow> string \<Rightarrow> (string \<rightharpoonup> bytes) \<Rightarrow> (bool \<times> bytes option) option" where
  "read_file l expected_md5 p d =
     (case d p of
        None \<Rightarrow> None
      | Some compressed \<Rightarrow>
          (case decompress l compressed of
             None \<Rightarrow> None
           | Some decompressed \<Rightarrow>
               if Some (md5 l decompressed) \<noteq> expected_md5 then Some (False, None)
               else Some (True, Some decompressed)))"

text \<open>\<^verbatim>\<open>delete_file\<close> (lines 333-338): \<^verbatim>\<open>os.remove\<close> fails on a missing file.\<close>

definition delete_file :: "string \<Rightarrow> (string \<rightharpoonup> bytes) \<Rightarrow> bool \<times> (string \<rightharpoonup> bytes)" where
  "delete_file p d = (case d p of None \<Rightarrow> (False, d) | Some c \<Rightarrow> (True, d(p := None)))"

text \<open>
  The batch calls of the pool, item by item in input order, one result per item
  (lines 164, 232, 295).
\<close>

fun starmap_save :: "lib \<Rightarrow> (bytes \<times> string) list \<Rightarrow> (string \<rightharpoonup> bytes) \<Rightarrow> string list \<times> (string \<rightharpoonup> bytes)" where
  "starmap_save l [] d = ([], d)"
| "starmap_save l ((data, p) # xs) d =
     (case save_file l data p d of (h, d1) \<Rightarrow>
        (case starmap_save l xs d1 of (hs, d2) \<Rightarrow> (h # hs, d2)))"

fun starmap_read :: "lib \<Rightarrow> (string option \<times> string) list \<Rightarrow> (string \<rightharpoonup> bytes) \<Rightarrow> (bool \<times> bytes option) list option" where
  "starmap_read l [] d = Some []"
| "starmap_read l ((h, p) # xs) d =
     (case read_file l h p d of
        None \<Rightarrow> None
      | Some r \<Rightarrow> (case starmap_read l xs d of None \<Rightarrow> None | Some rs \<Rightarrow> Some (r # rs)))"

fun map_delete :: "string list \<Rightarrow> (string \<rightharpoonup> bytes) \<Rightarrow> bool list \<times> (string \<rightharpoonup> bytes)" where
  "map_delete [] d = ([], d)"
| "map_delete (p # ps) d =
     (case delete_file p d of (b, d1) \<Rightarrow>
        (case map_delete ps d1 of (bs, d2) \<Rightarrow> (b # bs, d2)))"

section \<open>Put\<close>

text \<open>
  The \<^verbatim>\<open>for i in range(self.batch_size)\<close> loop of put (lines 136-162), with \<open>k\<close> the
  number of iterations left. The reader is the part of the source not yet read (the
  source is not rewritten while the put runs, unless it is itself one of the part files).
  \<open>rd\<close>, \<open>idx\<close>, \<open>fps\<close> and \<open>batch\<close> are the locals \<^verbatim>\<open>reader\<close>, \<^verbatim>\<open>index\<close>,
  \<^verbatim>\<open>file_parts\<close> and \<^verbatim>\<open>batch\<close>; the result carries them with \<^verbatim>\<open>file_finished\<close>.
\<close>

fun put_for :: "config \<Rightarrow> nat \<Rightarrow> nat \<Rightarrow> bytes \<Rightarrow> nat \<Rightarrow> FilePart list \<Rightarrow> (bytes \<times> string) list \<Rightarrow> state
    \<Rightarrow> (bytes \<times> nat \<times> bool \<times> FilePart list \<times> (bytes \<times> string) list) flow" where
  "put_for cfg fid 0 rd idx fps batch s = Next (rd, idx, False, fps, batch) s"
| "put_for cfg fid (Suc k) rd idx fps batch s =
     (case pop (part_lock_ok s) of (ok, rest) \<Rightarrow>
        if \<not> ok then
          (case abort_release PartIdLockTimeout (s\<lparr>part_lock_ok := rest\<rparr>) of
             (r, s') \<Rightarrow> Return r s')
        else
          (case pop (io_ok s) of (read_ok, io_rest) \<Rightarrow>
             let s1 = s\<lparr>part_lock_ok := rest, part_next_id := part_next_id s + 1,
                        io_ok := io_rest\<rparr> in
             if \<not> read_ok then Raise s1
             else if take part_size rd = [] then
               Next (drop part_size rd, idx, True, fps, batch) s1
             else
               (case parts s1 fid of
                  None \<Rightarrow> Raise s1
                | Some ps \<Rightarrow>
                    let file_part = new_part (part_next_id s) fid None False idx in
                    put_for cfg fid k (drop part_size rd) (idx + 1) (fps @ [file_part])
                      (batch @ [(take part_size rd, parts_directory cfg @ path file_part)])
                      (s1\<lparr>parts := (parts s1)(fid \<mapsto> ps @ [file_part])\<rparr>))))"

text \<open>
  Lines 166-168: for each part of the batch, the entry at position \<^verbatim>\<open>part.index\<close> of the
  file's sequence gets its digest and \<^verbatim>\<open>status = True\<close>. \<open>False\<close> in the result: a
  \<^verbatim>\<open>KeyError\<close> or \<^verbatim>\<open>IndexError\<close> was raised.
\<close>

fun set_hashes :: "nat \<Rightarrow> (FilePart \<times> string) list \<Rightarrow> state \<Rightarrow> bool \<times> state" where
  "set_hashes fid [] s = (True, s)"
| "set_hashes fid ((part, h) # xs) s =
     (case parts s fid of
        None \<Rightarrow> (False, s)
      | Some ps \<Rightarrow>
          if index part < length ps then
            set_hashes fid xs
              (s\<lparr>parts := (parts s)(fid \<mapsto>
                   ps[index part := (ps ! index part)\<lparr>hash := Some h, part_status := True\<rparr>])\<rparr>)
          else (False, s))"

text \<open>Lines 178-180: the end of a put whose loop has finished.\<close>

definition put_finish :: "nat \<Rightarrow> bool \<Rightarrow> state \<Rightarrow> result \<times> state" where
  "put_finish fid locked_memory s =
     (case parts s fid of
        None \<Rightarrow> on_exception locked_memory s
      | Some ps \<Rightarrow>
          (case files s fid of
             None \<Rightarrow> on_exception locked_memory s
           | Some f \<Rightarrow>
               (Completed, s\<lparr>files := (files s)(fid \<mapsto> f\<lparr>part_count := length ps, status := True\<rparr>)\<rparr>)))"

text \<open>
  Lines 164-176: the batch is saved by the pool, the digests are recorded and the
  reservation is released. The result is the new \<^verbatim>\<open>locked_memory\<close> and the state, or
  the exception.
\<close>

definition put_dispatch :: "lib \<Rightarrow> nat \<Rightarrow> FilePart list \<Rightarrow> (bytes \<times> string) list \<Rightarrow> state \<Rightarrow> bool flow" where
  "put_dispatch l fid fps batch s =
     (case pop (io_ok s) of (pool_ok, io_rest) \<Rightarrow>
        if \<not> pool_ok then Raise (s\<lparr>io_ok := io_rest\<rparr>)
        else
          (case starmap_save l batch (disk s) of (res, d) \<Rightarrow>
             (case set_hashes fid (zip fps res) (s\<lparr>io_ok := io_rest, disk := d\<rparr>) of
                (hashes_ok, s1) \<Rightarrow>
                  if \<not> hashes_ok then Raise s1
                  else (case batch_release s1 of (locked, s2) \<Rightarrow> Next locked s2))))"

lemma put_for_shrinks:
  "put_for cfg fid k rd idx fps batch s = Next (rd', idx', fin', fps', batch') s' \<Longrightarrow>
   length rd' \<le> length rd"
proof (induction k arbitrary: rd idx fps batch s)
  case 0
  then show ?case by simp
next
  case (Suc k)
  from Suc.prems show ?case
    apply (simp add: Let_def split: prod.splits if_splits option.splits)
     apply (simp add: part_size_def)
    apply (drule Suc.IH)
    apply simp
    done
qed

lemma put_for_progress:
  "put_for cfg fid (Suc k) rd idx fps batch s = Next (rd', idx', fin', fps', batch') s' \<Longrightarrow>
   fin' \<or> length rd' < length rd"
  apply (simp add: Let_def split: prod.splits if_splits option.splits)
  apply (drule put_for_shrinks)
  apply (cases rd)
   apply (simp_all add: part_size_def)
  apply arith
  done

text \<open>
  The \<^verbatim>\<open>while not file_finished\<close> loop (lines 122-176) and the lines after it. The
  reservation of lines 124-131: a timeout of the lock is a \<^verbatim>\<open>continue\<close>; so is a timeout
  of \<^verbatim>\<open>wait_for\<close>, and since no other thread changes the usage the predicate then stays
  false, and once the script has no further outcome the loop repeats itself unchanged for
  ever: the result is \<open>None\<close>.
\<close>

function put_while :: "config \<Rightarrow> lib \<Rightarrow> nat \<Rightarrow> bytes \<Rightarrow> nat \<Rightarrow> bool \<Rightarrow> bool \<Rightarrow> state \<Rightarrow> (result \<times> state) option" where
  "put_while cfg l fid rd idx file_finished locked_memory s =
     (if file_finished then Some (put_finish fid locked_memory s)
      else
        (case pop (cond_reserve_ok s) of (ok, rest) \<Rightarrow>
           if \<not> ok then
             put_while cfg l fid rd idx file_finished locked_memory (s\<lparr>cond_reserve_ok := rest\<rparr>)
           else if \<not> admissible cfg s then
             (if cond_reserve_ok s = [] then None
              else put_while cfg l fid rd idx file_finished locked_memory (s\<lparr>cond_reserve_ok := rest\<rparr>))
           else
             (case put_for cfg fid batch_size rd idx [] [] (grant (s\<lparr>cond_reserve_ok := rest\<rparr>)) of
                Return r s1 \<Rightarrow> Some (r, s1)
              | Raise s1 \<Rightarrow> Some (on_exception True s1)
              | Next (rd', idx', fin', fps, batch) s1 \<Rightarrow>
                  (case put_dispatch l fid fps batch s1 of
                     Return r s2 \<Rightarrow> Some (r, s2)
                   | Raise s2 \<Rightarrow> Some (on_exception True s2)
                   | Next locked s2 \<Rightarrow> put_while cfg l fid rd' idx' fin' locked s2))))"
  by pat_completeness auto
termination
  apply (relation "measures [\<lambda>(cfg, l, fid, rd, idx, fin, locked, s). (if fin then 0 else Suc (length rd)),
                           \<lambda>(cfg, l, fid, rd, idx, fin, locked, s). length (cond_reserve_ok s)]")
     apply simp
  subgoal for cfg l fid rd idx fin locked s x y
    by (cases "cond_reserve_ok s") auto
  subgoal for cfg l fid rd idx fin locked s x y
    by (cases "cond_reserve_ok s") auto
  subgoal for cfg l fid rd idx fin locked s x y x11 x12 xa ya xb yb xc yc xd yd x11a x12a
    using put_for_progress[of cfg fid 9 rd idx "[]" "[]" "grant (s\<lparr>cond_reserve_ok := y\<rparr>)" xa xb xc xd yd x12]
    by (auto simp add: batch_size_def simp del: put_for.simps)
  done

declare put_while.simps [simp del]

text \<open>
  \<^verbatim>\<open>handle_put_command\<close> (lines 103-190) for the file name \<^verbatim>\<open>words[1]\<close>. Opening a
  source that is not on the disk raises; line 121 binds the empty part sequence once the
  source is open.
\<close>

definition handle_put_command :: "config \<Rightarrow> lib \<Rightarrow> string \<Rightarrow> state \<Rightarrow> (result \<times> state) option" where
  "handle_put_command cfg l file_name s =
     (case pop (file_lock_ok s) of (ok, rest) \<Rightarrow>
        if \<not> ok then Some (FileIdLockTimeout, s\<lparr>file_lock_ok := rest\<rparr>)
        else
          (case pop (io_ok s) of (open_ok, io_rest) \<Rightarrow>
             let fid = file_next_id s;
                 s1 = s\<lparr>file_lock_ok := rest, file_next_id := fid + 1,
                        files := (files s)(fid \<mapsto>
                          \<lparr>file_id = fid, name = file_name, status = False, part_count = 0\<rparr>),
                        io_ok := io_rest\<rparr> in
             (case (if open_ok then disk s file_name else None) of
                None \<Rightarrow> Some (on_exception False s1)
              | Some content \<Rightarrow>
                  put_while cfg l fid content 0 False False (s1\<lparr>parts := (parts s1)(fid \<mapsto> [])\<rparr>))))"

section \<open>Get\<close>

text \<open>
  The loop over the results of a batch (lines 234-246): a result with \<^verbatim>\<open>ok\<close> false ends
  the get; otherwise the data is appended to the destination, whose content so far is what
  the disk holds under the file's name.
\<close>

fun get_for :: "string \<Rightarrow> (bool \<times> bytes option) list \<Rightarrow> state \<Rightarrow> unit flow" where
  "get_for nm [] s = Next () s"
| "get_for nm ((ok, data) # rs) s =
     (if \<not> ok then
        (case abort_release HashMismatch s of (r, s') \<Rightarrow> Return r s')
      else
        (case disk s nm of
           None \<Rightarrow> Raise s
         | Some written \<Rightarrow>
             (case data of
                None \<Rightarrow> Raise s
              | Some bs \<Rightarrow> get_for nm rs (s\<lparr>disk := (disk s)(nm \<mapsto> written @ bs)\<rparr>))))"

text \<open>
  Lines 226-228 and 289-291: \<^verbatim>\<open>end = (index+1)*self.batch_size\<close>, cut at the length of
  the sequence.
\<close>

definition batch_end :: "nat \<Rightarrow> nat \<Rightarrow> nat" where
  "batch_end idx n = (if (idx + 1) * batch_size < n then (idx + 1) * batch_size else n)"

text \<open>
  Line 229: the slice \<^verbatim>\<open>file_parts[start:end]\<close> of batch \<open>idx\<close> and its work items
  \<^verbatim>\<open>(part.hash, self.parts_directory + part.path)\<close>.
\<close>

definition get_batch :: "config \<Rightarrow> FilePart list \<Rightarrow> nat \<Rightarrow> (string option \<times> string) list" where
  "get_batch cfg file_parts idx =
     (let start = idx * batch_size;
          end1 = batch_end idx (length file_parts)
      in map (\<lambda>part. (hash part, parts_directory cfg @ path part))
           (take (end1 - start) (drop start file_parts)))"

text \<open>
  The \<^verbatim>\<open>while index*self.batch_size < len(file_parts)\<close> loop (lines 215-254); the
  reservation is the one of put.
\<close>

function get_while :: "config \<Rightarrow> lib \<Rightarrow> string \<Rightarrow> FilePart list \<Rightarrow> nat \<Rightarrow> bool \<Rightarrow> state \<Rightarrow> (result \<times> state) option" where
  "get_while cfg l nm file_parts idx locked_memory s =
     (if idx * batch_size < length file_parts then
        (case pop (cond_reserve_ok s) of (ok, rest) \<Rightarrow>
           if \<not> ok then
             get_while cfg l nm file_parts idx locked_memory (s\<lparr>cond_reserve_ok := rest\<rparr>)
           else if \<not> admissible cfg s then
             (if cond_reserve_ok s = [] then None
              else get_while cfg l nm file_parts idx locked_memory (s\<lparr>cond_reserve_ok := rest\<rparr>))
           else
             (case pop (io_ok s) of (pool_ok, io_rest) \<Rightarrow>
                let s1 = grant (s\<lparr>cond_reserve_ok := rest, io_ok := io_rest\<rparr>) in
                if \<not> pool_ok then Some (on_exception True s1)
                else
                  (case starmap_read l (get_batch cfg file_parts idx) (disk s1) of
                     None \<Rightarrow> Some (on_exception True s1)
                   | Some res \<Rightarrow>
                       (case get_for nm res s1 of
                          Return r s2 \<Rightarrow> Some (r, s2)
                        | Raise s2 \<Rightarrow> Some (on_exception True s2)
                        | Next u s2 \<Rightarrow>
                            (case batch_release s2 of (locked, s3) \<Rightarrow>
                               get_while cfg l nm file_parts (idx + 1) locked s3)))))
      else Some (Completed, s))"
  by pat_completeness auto
termination
  apply (relation "measures [\<lambda>(cfg, l, nm, file_parts, idx, locked, s). length file_parts - idx * batch_size,
                           \<lambda>(cfg, l, nm, file_parts, idx, locked, s). length (cond_reserve_ok s)]")
     apply simp
  subgoal for cfg l nm file_parts idx locked s x y
    by (cases "cond_reserve_ok s") auto
  subgoal for cfg l nm file_parts idx locked s x y
    by (cases "cond_reserve_ok s") auto
  subgoal
    by (auto simp: batch_size_def)
  done

declare get_while.simps [simp del]

text \<open>
  \<^verbatim>\<open>handle_get_command\<close> (lines 202-265) for the parsed file id. Opening the destination
  for writing truncates it (line 214).
\<close>

definition handle_get_command :: "config \<Rightarrow> lib \<Rightarrow> nat \<Rightarrow> state \<Rightarrow> (result \<times> state) option" where
  "handle_get_command cfg l fid s =
     (case files s fid of
        None \<Rightarrow> Some (NotFound, s)
      | Some file \<Rightarrow>
          if \<not> status file then Some (NotReady, s)
          else
            (case parts s (file_id file) of
               None \<Rightarrow> Some (Uncaught, s)
             | Some file_parts \<Rightarrow>
                 (case pop (io_ok s) of (open_ok, io_rest) \<Rightarrow>
                    if \<not> open_ok then Some (on_exception False (s\<lparr>io_ok := io_rest\<rparr>))
                    else
                      get_while cfg l (name file) file_parts 0 False
                        (s\<lparr>io_ok := io_rest, disk := (disk s)(name file \<mapsto> [])\<rparr>))))"

section \<open>Delete\<close>

text \<open>
  Lines 293-294: \<^verbatim>\<open>for j in range(start, end)\<close>, the part at position \<open>j\<close> gets
  \<^verbatim>\<open>status = False\<close>.
\<close>

definition mark_deleted :: "nat \<Rightarrow> nat \<Rightarrow> FilePart list \<Rightarrow> FilePart list" where
  "mark_deleted start end1 ps =
     fold (\<lambda>j qs. qs[j := (qs ! j)\<lparr>part_status := False\<rparr>]) [start..<end1] ps"

text \<open>
  Lines 296-300, for the results from position \<open>i\<close> on, \<open>n\<close> being \<^verbatim>\<open>len(result)\<close>: a
  successful result at position \<open>i\<close> deletes the entry at position
  \<^verbatim>\<open>index * self.batch_size + len(result) - i - 1\<close> of the sequence, a failed one is
  reported. The result counts the reports; \<open>None\<close> is an \<^verbatim>\<open>IndexError\<close>.
\<close>

fun delete_for :: "nat \<Rightarrow> nat \<Rightarrow> nat \<Rightarrow> bool list \<Rightarrow> FilePart list \<Rightarrow> nat \<Rightarrow> (FilePart list \<times> nat) option" where
  "delete_for idx n i [] ps errs = Some (ps, errs)"
| "delete_for idx n i (delete_result # rs) ps errs =
     (if delete_result then
        (let pos = idx * batch_size + n - i - 1 in
         if pos < length ps then delete_for idx n (i + 1) rs (take pos ps @ drop (Suc pos) ps) errs
         else None)
      else delete_for idx n (i + 1) rs ps (errs + 1))"

text \<open>
  One iteration of the \<^verbatim>\<open>while index >= 0\<close> loop (lines 289-300) for batch \<open>idx\<close>; the
  sequence is the one the registry holds at that moment.
\<close>

definition delete_batch :: "config \<Rightarrow> nat \<Rightarrow> nat \<Rightarrow> nat \<Rightarrow> state \<Rightarrow> nat flow" where
  "delete_batch cfg fid idx errs s =
     (case parts s fid of
        None \<Rightarrow> Raise s
      | Some file_parts \<Rightarrow>
          let start = idx * batch_size;
              end1 = batch_end idx (length file_parts);
              batch = map (\<lambda>part. parts_directory cfg @ path part)
                        (take (end1 - start) (drop start file_parts));
              s1 = s\<lparr>parts := (parts s)(fid \<mapsto> mark_deleted start end1 file_parts)\<rparr>
          in
          (case pop (io_ok s1) of (pool_ok, io_rest) \<Rightarrow>
             if \<not> pool_ok then Raise (s1\<lparr>io_ok := io_rest\<rparr>)
             else
               (case map_delete batch (disk s1) of (res, d) \<Rightarrow>
                  (case delete_for idx (length res) 0 res (mark_deleted start end1 file_parts) errs of
                     None \<Rightarrow> Raise (s1\<lparr>io_ok := io_rest, disk := d\<rparr>)
                   | Some (ps', errs') \<Rightarrow>
                       Next errs' (s1\<lparr>io_ok := io_rest, disk := d, parts := (parts s1)(fid \<mapsto> ps')\<rparr>)))))"

text \<open>
  The loop of lines 288-301 from batch \<open>idx\<close> down to batch 0. The result carries the
  number of \<^verbatim>\<open>Error deleting file.\<close> reports.
\<close>

fun delete_while :: "config \<Rightarrow> nat \<Rightarrow> nat \<Rightarrow> nat \<Rightarrow> state \<Rightarrow> result \<times> nat \<times> state" where
  "delete_while cfg fid 0 errs s =
     (case delete_batch cfg fid 0 errs s of
        Next errs' s1 \<Rightarrow> (Completed, errs', s1)
      | Raise s1 \<Rightarrow> (Failed, errs, s1)
      | Return r s1 \<Rightarrow> (r, errs, s1))"
| "delete_while cfg fid (Suc idx) errs s =
     (case delete_batch cfg fid (Suc idx) errs s of
        Next errs' s1 \<Rightarrow> delete_while cfg fid idx errs' s1
      | Raise s1 \<Rightarrow> (Failed, errs, s1)
      | Return r s1 \<Rightarrow> (r, errs, s1))"

text \<open>
  \<^verbatim>\<open>handle_delete_command\<close> (lines 276-304) for the parsed file id: the part sequence is
  looked up under \<^verbatim>\<open>file.id\<close>, and after the loop the entry of the File Registry under
  the given id is deleted (line 302; a \<^verbatim>\<open>KeyError\<close> there is caught like any other).
\<close>

definition handle_delete_command :: "config \<Rightarrow> nat \<Rightarrow> state \<Rightarrow> result \<times> nat \<times> state" where
  "handle_delete_command cfg fid s =
     (case files s fid of
        None \<Rightarrow> (NotFound, 0, s)
      | Some file \<Rightarrow>
          if \<not> status file then (NotReady, 0, s)
          else
            (let s1 = s\<lparr>files := (files s)(fid \<mapsto> file\<lparr>status := False\<rparr>)\<rparr> in
             case parts s1 (file_id file) of
               None \<Rightarrow> (Uncaught, 0, s1)
             | Some file_parts \<Rightarrow>
                 (case delete_while cfg (file_id file) (length file_parts div batch_size) 0 s1 of
                    (r, errs, s2) \<Rightarrow>
                      if r = Completed then
                        (case files s2 fid of
                           None \<Rightarrow> (Failed, errs, s2)
                         | Some f \<Rightarrow> (Completed, errs, s2\<lparr>files := (files s2)(fid := None)\<rparr>))
                      else (r, errs, s2))))"

section \<open>The counter under concurrent reservations\<close>

text \<open>
  The critical sections of all threads on the counter, in any interleaving: a thread that
  asks for a reservation gets it when the predicate holds (lines 126-129, 219-222) and
  otherwise keeps waiting with the counter unchanged; a release subtracts. \<open>mem_trace\<close>
  lists the states the counter goes through.
\<close>

datatype mem_event = Reserve | Release

fun mem_step :: "config \<Rightarrow> mem_event \<Rightarrow> state \<Rightarrow> state" where
  "mem_step cfg Reserve s = (if admissible cfg s then grant s else s)"
| "mem_step cfg Release s = release s"

fun mem_trace :: "config \<Rightarrow> mem_event list \<Rightarrow> state \<Rightarrow> state list" where
  "mem_trace cfg [] s = [s]"
| "mem_trace cfg (e # es) s = s # mem_trace cfg es (mem_step cfg e s)"

section \<open>Concrete configurations and states\<close>

text \<open>
  A configuration whose directory string ends with the separator, and a stand-in for the
  library: compression prefixes one byte, decompression removes it (and raises on anything
  else, in particular on the empty input), the digest is the decimal length.
\<close>

definition ex_cfg :: config where
  "ex_cfg = \<lparr>parts_directory = ''parts/'', memory_limit = 1048576\<rparr>"

definition ex_lib :: lib where
  "ex_lib = \<lparr>compress = (\<lambda>d. 120 # d),
             decompress = (\<lambda>d. case d of [] \<Rightarrow> None | x # xs \<Rightarrow> if x = 120 then Some xs else None),
             md5 = (\<lambda>d. str_nat (length d))\<rparr>"

text \<open>The state after \<^verbatim>\<open>FileStorageSystem.__init__\<close> (lines 61-65), with an empty disk.\<close>

definition init_state :: state where
  "init_state = \<lparr>file_next_id = 0, files = Map.empty, part_next_id = 0, parts = Map.empty,
      memory_usage = 0, disk = Map.empty, file_lock_ok = [], part_lock_ok = [],
      cond_reserve_ok = [], cond_release_ok = [], io_ok = []\<rparr>"

text \<open>
  A stored file 0 of two parts whose second part file is no longer on the disk (removed
  from outside), so that its removal will fail.
\<close>

definition del_state :: state where
  "del_state = init_state\<lparr>file_next_id := 1,
      files := [0 \<mapsto> \<lparr>file_id = 0, name = ''a.txt'', status = True, part_count = 2\<rparr>],
      part_next_id := 3,
      parts := [0 \<mapsto> [new_part 0 0 (Some ''1024'') True 0, new_part 1 0 (Some ''1'') True 1]],
      disk := [''parts/0_0.PART'' \<mapsto> [120, 7]]\<rparr>"

text \<open>
  A three-byte source \<^verbatim>\<open>a.txt\<close> on an otherwise empty system, and the same with a script in
  which the first acquisition of the part id lock and the first acquisition of the
  condition for a release time out.
\<close>

definition put_state :: state where
  "put_state = init_state\<lparr>disk := [''a.txt'' \<mapsto> [1, 2, 3]]\<rparr>"

definition leak_state :: state where
  "leak_state = init_state\<lparr>disk := [''a.txt'' \<mapsto> [1, 2, 3]], part_lock_ok := [False],
     cond_release_ok := [False]\<rparr>"

text \<open>
  The state \<open>del_state\<close> with the files of both parts on disk, so that every removal
  succeeds.
\<close>

definition del_ok_state :: state where
  "del_ok_state = del_state\<lparr>disk := [''parts/0_0.PART'' \<mapsto> [120, 7], ''parts/0_1.PART'' \<mapsto> [120, 8]]\<rparr>"

section \<open>Decimal strings\<close>

lemma str_nat_0: "str_nat 0 = ''0''"
  by (simp add: str_nat.simps digit_char_def)

lemma str_nat_1: "str_nat 1 = ''1''"
  by (simp add: str_nat.simps digit_char_def)

section \<open>Delete\<close>

text \<open>
  C2. The claim: during delete, the entry erased for a successful removal is that item's
  own entry, and exactly the entries of the failed items stay. The code erases, for the
  successful result at position \<open>i\<close>, the entry at the mirrored position
  \<open>index * batch_size + len(result) - i - 1\<close>. On \<open>del_state\<close> the removal of part 0
  succeeds (its file is gone afterwards) and the removal of part 1 fails (one report), yet
  the entry that stays is the one of part 0 and the entry of part 1 is erased.
\<close>

theorem delete_erases_mirrored_entry:
  "(case handle_delete_command ex_cfg 0 del_state of
      (r, errs, s) \<Rightarrow> (r, errs, map_option (map index) (parts s 0), disk s ''parts/0_0.PART''))
   = (Completed, 1, Some [0], None)"
  by code_simp

section \<open>Put: what every run preserves\<close>

lemma needed_memory_pos: "0 < needed_memory"
  by (simp add: needed_memory_def part_size_def batch_size_def)

lemma dom_if_upd [simp]: "dom (\<lambda>a. if a = k then Some v else m a) = insert k (dom m)"
  by (auto simp: dom_def)

lemma pop_all_ok: "False \<notin> set xs \<Longrightarrow> pop xs = (b, rest) \<Longrightarrow> b \<and> False \<notin> set rest"
  by (cases xs) auto

lemma pop_False: "pop xs = (False, rest) \<Longrightarrow> False \<in> set xs"
  by (cases xs) auto

lemma abort_release_facts:
  "abort_release r s = (r', s') \<Longrightarrow>
   r' = r \<and> files s' = files s \<and> parts s' = parts s \<and> disk s' = disk s \<and>
   part_next_id s' = part_next_id s \<and> memory_usage s' \<le> memory_usage s \<and>
   (False \<notin> set (cond_release_ok s) \<longrightarrow> memory_usage s' = memory_usage s - needed_memory)"
  using needed_memory_pos
  by (auto simp: abort_release_def release_def split: prod.splits if_splits dest: pop_all_ok)

lemma on_exception_facts:
  "on_exception locked s = (r', s') \<Longrightarrow>
   r' = Failed \<and> files s' = files s \<and> parts s' = parts s \<and> disk s' = disk s \<and>
   part_next_id s' = part_next_id s \<and> memory_usage s' \<le> memory_usage s \<and>
   (\<not> locked \<longrightarrow> memory_usage s' = memory_usage s) \<and>
   (locked \<longrightarrow> False \<notin> set (cond_release_ok s) \<longrightarrow> memory_usage s' = memory_usage s - needed_memory)"
  by (cases locked) (auto simp: on_exception_def dest!: abort_release_facts)

lemma batch_release_facts:
  "batch_release s = (locked, s') \<Longrightarrow>
   files s' = files s \<and> parts s' = parts s \<and> disk s' = disk s \<and>
   part_next_id s' = part_next_id s \<and> memory_usage s' \<le> memory_usage s \<and>
   (False \<notin> set (cond_release_ok s) \<longrightarrow>
      \<not> locked \<and> memory_usage s' = memory_usage s - needed_memory \<and> False \<notin> set (cond_release_ok s'))"
  using needed_memory_pos
  by (auto simp: batch_release_def release_def split: prod.splits if_splits dest: pop_all_ok pop_False)

text \<open>One iteration of the for loop of put, by cases.\<close>

lemma put_for_Suc_cases:
  assumes "put_for cfg fid (Suc k) rd idx fps batch s = res"
  obtains
    (timeout) rest r s' where "pop (part_lock_ok s) = (False, rest)"
      and "abort_release PartIdLockTimeout (s\<lparr>part_lock_ok := rest\<rparr>) = (r, s')"
      and "res = Return r s'"
  | (read_failed) rest io_rest where "pop (part_lock_ok s) = (True, rest)"
      and "pop (io_ok s) = (False, io_rest)"
      and "res = Raise (s\<lparr>part_lock_ok := rest, part_next_id := part_next_id s + 1, io_ok := io_rest\<rparr>)"
  | (eof) rest io_rest where "pop (part_lock_ok s) = (True, rest)"
      and "pop (io_ok s) = (True, io_rest)" and "take part_size rd = []"
      and "res = Next (drop part_size rd, idx, True, fps, batch)
                  (s\<lparr>part_lock_ok := rest, part_next_id := part_next_id s + 1, io_ok := io_rest\<rparr>)"
  | (no_key) rest io_rest where "pop (part_lock_ok s) = (True, rest)"
      and "pop (io_ok s) = (True, io_rest)" and "take part_size rd \<noteq> []" and "parts s fid = None"
      and "res = Raise (s\<lparr>part_lock_ok := rest, part_next_id := part_next_id s + 1, io_ok := io_rest\<rparr>)"
  | (step) rest io_rest ps where "pop (part_lock_ok s) = (True, rest)"
      and "pop (io_ok s) = (True, io_rest)" and "take part_size rd \<noteq> []" and "parts s fid = Some ps"
      and "res = put_for cfg fid k (drop part_size rd) (idx + 1)
                  (fps @ [new_part (part_next_id s) fid None False idx])
                  (batch @ [(take part_size rd, parts_directory cfg @ path (new_part (part_next_id s) fid None False idx))])
                  (s\<lparr>part_lock_ok := rest, part_next_id := part_next_id s + 1, io_ok := io_rest,
                     parts := (parts s)(fid \<mapsto> ps @ [new_part (part_next_id s) fid None False idx])\<rparr>)"
proof -
  obtain ok rest where p1: "pop (part_lock_ok s) = (ok, rest)" by force
  obtain rok io_rest where p2: "pop (io_ok s) = (rok, io_rest)" by force
  obtain r s' where p3: "abort_release PartIdLockTimeout (s\<lparr>part_lock_ok := rest\<rparr>) = (r, s')" by force
  show thesis
  proof (cases ok)
    case False
    with assms p1 p3 show ?thesis by (intro timeout[of rest r s']) simp_all
  next
    case ok: True
    show ?thesis
    proof (cases rok)
      case False
      with assms p1 p2 ok show ?thesis by (intro read_failed[of rest io_rest]) simp_all
    next
      case rok: True
      show ?thesis
      proof (cases "take part_size rd = []")
        case True
        with assms p1 p2 ok rok show ?thesis by (intro eof[of rest io_rest]) simp_all
      next
        case ne: False
        show ?thesis
        proof (cases "parts s fid")
          case None
          with assms p1 p2 ok rok ne show ?thesis by (intro no_key[of rest io_rest]) simp_all
        next
          case (Some ps)
          with assms p1 p2 ok rok ne show ?thesis
            by (intro step[of rest io_rest ps]) (simp_all add: Let_def)
        qed
      qed
    qed
  qed
qed

lemma put_for_Next_facts:
  "put_for cfg fid k rd idx fps batch s = Next x s' \<Longrightarrow>
   files s' = files s \<and> dom (parts s) \<subseteq> dom (parts s') \<and> memory_usage s' = memory_usage s \<and>
   cond_release_ok s' = cond_release_ok s \<and> disk s' = disk s"
proof (induction k arbitrary: rd idx fps batch s)
  case 0
  then show ?case by simp
next
  case (Suc k)
  from Suc.prems show ?case
  proof (cases rule: put_for_Suc_cases)
    case (step rest io_rest ps)
    from Suc.IH[OF step(5)[symmetric]] show ?thesis by simp
  qed simp_all
qed

lemma put_for_Raise_facts:
  "put_for cfg fid k rd idx fps batch s = Raise s' \<Longrightarrow>
   files s' = files s \<and> dom (parts s) \<subseteq> dom (parts s') \<and> memory_usage s' = memory_usage s \<and>
   cond_release_ok s' = cond_release_ok s \<and> disk s' = disk s"
proof (induction k arbitrary: rd idx fps batch s)
  case 0
  then show ?case by simp
next
  case (Suc k)
  from Suc.prems show ?case
  proof (cases rule: put_for_Suc_cases)
    case (step rest io_rest ps)
    from Suc.IH[OF step(5)[symmetric]] show ?thesis by simp
  qed simp_all
qed

lemma put_for_Return_facts:
  "put_for cfg fid k rd idx fps batch s = Return r s' \<Longrightarrow>
   r = PartIdLockTimeout \<and> files s' = files s \<and> dom (parts s) \<subseteq> dom (parts s') \<and>
   memory_usage s' \<le> memory_usage s \<and> disk s' = disk s \<and>
   (False \<notin> set (cond_release_ok s) \<longrightarrow> memory_usage s' = memory_usage s - needed_memory)"
proof (induction k arbitrary: rd idx fps batch s)
  case 0
  then show ?case by simp
next
  case (Suc k)
  from Suc.prems show ?case
  proof (cases rule: put_for_Suc_cases)
    case (timeout rest r0 s0)
    from abort_release_facts[OF timeout(2)] timeout(3) show ?thesis by simp
  next
    case (step rest io_rest ps)
    from Suc.IH[OF step(5)[symmetric]] show ?thesis by simp
  qed simp_all
qed


lemma set_hashes_facts:
  "set_hashes fid xs s = (ok, s') \<Longrightarrow>
   files s' = files s \<and> dom (parts s) \<subseteq> dom (parts s') \<and> memory_usage s' = memory_usage s \<and>
   cond_release_ok s' = cond_release_ok s \<and> disk s' = disk s \<and> part_next_id s' = part_next_id s"
proof (induction fid xs s rule: set_hashes.induct)
  case (1 fid s)
  then show ?case by simp
next
  case (2 fid part h xs s)
  show ?case
  proof (cases "parts s fid")
    case None
    with "2.prems" show ?thesis by simp
  next
    case (Some ps)
    show ?thesis
    proof (cases "index part < length ps")
      case True
      with "2.prems" Some "2.IH"[OF Some True] show ?thesis by simp
    next
      case False
      with "2.prems" Some show ?thesis by simp
    qed
  qed
qed

lemma put_dispatch_cases:
  assumes "put_dispatch l fid fps batch s = res"
  obtains
    (pool_failed) io_rest where "pop (io_ok s) = (False, io_rest)" and "res = Raise (s\<lparr>io_ok := io_rest\<rparr>)"
  | (hashes_failed) io_rest hs d s1 where "pop (io_ok s) = (True, io_rest)"
      and "starmap_save l batch (disk s) = (hs, d)"
      and "set_hashes fid (zip fps hs) (s\<lparr>io_ok := io_rest, disk := d\<rparr>) = (False, s1)"
      and "res = Raise s1"
  | (saved) io_rest hs d s1 locked s2 where "pop (io_ok s) = (True, io_rest)"
      and "starmap_save l batch (disk s) = (hs, d)"
      and "set_hashes fid (zip fps hs) (s\<lparr>io_ok := io_rest, disk := d\<rparr>) = (True, s1)"
      and "batch_release s1 = (locked, s2)"
      and "res = Next locked s2"
proof -
  obtain pool_ok io_rest where p1: "pop (io_ok s) = (pool_ok, io_rest)" by force
  obtain hs d where p2: "starmap_save l batch (disk s) = (hs, d)" by force
  obtain hok s1 where p3: "set_hashes fid (zip fps hs) (s\<lparr>io_ok := io_rest, disk := d\<rparr>) = (hok, s1)" by force
  obtain locked s2 where p4: "batch_release s1 = (locked, s2)" by force
  show thesis
  proof (cases pool_ok)
    case False
    with assms p1 show ?thesis by (intro pool_failed[of io_rest]) (simp_all add: put_dispatch_def)
  next
    case True
    show ?thesis
    proof (cases hok)
      case False
      with assms p1 p2 p3 True show ?thesis
        by (intro hashes_failed[of io_rest hs d s1]) (simp_all add: put_dispatch_def)
    next
      case hok: True
      with assms p1 p2 p3 p4 True show ?thesis
        by (intro saved[of io_rest hs d s1 locked s2]) (simp_all add: put_dispatch_def)
    qed
  qed
qed

lemma put_dispatch_not_Return: "put_dispatch l fid fps batch s \<noteq> Return r s'"
proof
  assume "put_dispatch l fid fps batch s = Return r s'"
  then show False by (cases rule: put_dispatch_cases) simp_all
qed

lemma put_dispatch_Raise_facts:
  assumes "put_dispatch l fid fps batch s = Raise s'"
  shows "files s' = files s \<and> dom (parts s) \<subseteq> dom (parts s') \<and> memory_usage s' = memory_usage s \<and>
         cond_release_ok s' = cond_release_ok s"
  using assms
proof (cases rule: put_dispatch_cases)
  case (pool_failed io_rest)
  then show ?thesis by simp
next
  case (hashes_failed io_rest hs d s1)
  from set_hashes_facts[OF hashes_failed(3)] hashes_failed(4) show ?thesis by simp
next
  case (saved io_rest hs d s1 locked s2)
  then show ?thesis by simp
qed

lemma put_dispatch_Next_facts:
  assumes "put_dispatch l fid fps batch s = Next locked s'"
  shows "files s' = files s \<and> dom (parts s) \<subseteq> dom (parts s') \<and> memory_usage s' \<le> memory_usage s \<and>
         (False \<notin> set (cond_release_ok s) \<longrightarrow>
            \<not> locked \<and> memory_usage s' = memory_usage s - needed_memory \<and>
            False \<notin> set (cond_release_ok s'))"
  using assms
proof (cases rule: put_dispatch_cases)
  case (pool_failed io_rest)
  then show ?thesis by simp
next
  case (hashes_failed io_rest hs d s1)
  then show ?thesis by simp
next
  case (saved io_rest hs d s1 locked0 s2)
  from set_hashes_facts[OF saved(3)] batch_release_facts[OF saved(4)] saved(5)
  show ?thesis by simp
qed

lemma put_finish_facts:
  assumes "put_finish fid locked s = (r, s')"
  shows "parts s' = parts s \<and> disk s' = disk s \<and> part_next_id s' = part_next_id s \<and>
         memory_usage s' \<le> memory_usage s \<and>
         (\<not> locked \<longrightarrow> memory_usage s' = memory_usage s) \<and>
         (r \<noteq> Completed \<longrightarrow> files s' = files s) \<and>
         (r = Completed \<longrightarrow> (\<exists>f ps. files s fid = Some f \<and> parts s fid = Some ps \<and>
             files s' = (files s)(fid \<mapsto> f\<lparr>part_count := length ps, status := True\<rparr>)))"
  using assms
  by (auto simp: put_finish_def split: option.splits dest!: on_exception_facts)

text \<open>One iteration of the while loop of put, by cases, and the induction that follows it.\<close>

lemma put_while_cases:
  assumes "put_while cfg l fid rd idx fin locked s = res"
  obtains
    (finished) "fin" and "res = Some (put_finish fid locked s)"
  | (retry) rest where "\<not> fin" and "pop (cond_reserve_ok s) = (False, rest)"
      and "res = put_while cfg l fid rd idx fin locked (s\<lparr>cond_reserve_ok := rest\<rparr>)"
  | (hang) "\<not> fin" and "\<not> admissible cfg s" and "cond_reserve_ok s = []" and "res = None"
  | (wait) rest where "\<not> fin" and "pop (cond_reserve_ok s) = (True, rest)"
      and "\<not> admissible cfg s" and "cond_reserve_ok s \<noteq> []"
      and "res = put_while cfg l fid rd idx fin locked (s\<lparr>cond_reserve_ok := rest\<rparr>)"
  | (returned) rest r s1 where "\<not> fin" and "pop (cond_reserve_ok s) = (True, rest)"
      and "admissible cfg s"
      and "put_for cfg fid batch_size rd idx [] [] (grant (s\<lparr>cond_reserve_ok := rest\<rparr>)) = Return r s1"
      and "res = Some (r, s1)"
  | (raised) rest s1 where "\<not> fin" and "pop (cond_reserve_ok s) = (True, rest)"
      and "admissible cfg s"
      and "put_for cfg fid batch_size rd idx [] [] (grant (s\<lparr>cond_reserve_ok := rest\<rparr>)) = Raise s1"
      and "res = Some (on_exception True s1)"
  | (dispatch_raised) rest rd' idx' fin' fps batch s1 s2 where "\<not> fin"
      and "pop (cond_reserve_ok s) = (True, rest)" and "admissible cfg s"
      and "put_for cfg fid batch_size rd idx [] [] (grant (s\<lparr>cond_reserve_ok := rest\<rparr>))
             = Next (rd', idx', fin', fps, batch) s1"
      and "put_dispatch l fid fps batch s1 = Raise s2"
      and "res = Some (on_exception True s2)"
  | (continue) rest rd' idx' fin' fps batch s1 locked' s2 where "\<not> fin"
      and "pop (cond_reserve_ok s) = (True, rest)" and "admissible cfg s"
      and "put_for cfg fid batch_size rd idx [] [] (grant (s\<lparr>cond_reserve_ok := rest\<rparr>))
             = Next (rd', idx', fin', fps, batch) s1"
      and "put_dispatch l fid fps batch s1 = Next locked' s2"
      and "res = put_while cfg l fid rd' idx' fin' locked' s2"
proof (cases fin)
  case True
  with assms show ?thesis by (intro finished) (simp_all add: put_while.simps)
next
  case nf: False
  obtain ok rest where p1: "pop (cond_reserve_ok s) = (ok, rest)" by force
  show ?thesis
  proof (cases ok)
    case False
    with assms nf p1 show ?thesis by (intro retry[of rest]) (simp_all add: put_while.simps)
  next
    case ok: True
    show ?thesis
    proof (cases "admissible cfg s")
      case False
      show ?thesis
      proof (cases "cond_reserve_ok s = []")
        case True
        with assms nf p1 ok False show ?thesis by (intro hang) (simp_all add: put_while.simps)
      next
        case ne: False
        with assms nf p1 ok False show ?thesis by (intro wait[of rest]) (simp_all add: put_while.simps)
      qed
    next
      case adm: True
      show ?thesis
      proof (cases "put_for cfg fid batch_size rd idx [] [] (grant (s\<lparr>cond_reserve_ok := rest\<rparr>))")
        case (Return r s1)
        with assms nf p1 ok adm show ?thesis
          by (intro returned[of rest r s1]) (simp_all add: put_while.simps)
      next
        case (Raise s1)
        with assms nf p1 ok adm show ?thesis
          by (intro raised[of rest s1]) (simp_all add: put_while.simps)
      next
        case (Next x s1)
        obtain rd' idx' fin' fps batch where x: "x = (rd', idx', fin', fps, batch)"
          by (cases x) auto
        show ?thesis
        proof (cases "put_dispatch l fid fps batch s1")
          case (Return r s2)
          then show ?thesis by (simp add: put_dispatch_not_Return)
        next
          case (Raise s2)
          with assms nf p1 ok adm Next x show ?thesis
            by (intro dispatch_raised[of rest rd' idx' fin' fps batch s1 s2])
               (simp_all add: put_while.simps)
        next
          case n2: (Next locked' s2)
          with assms nf p1 ok adm Next x show ?thesis
            by (intro continue[of rest rd' idx' fin' fps batch s1 locked' s2])
               (simp_all add: put_while.simps)
        qed
      qed
    qed
  qed
qed

lemma put_while_induct [consumes 0, case_names step]:
  assumes "\<And>cfg l fid rd idx fin locked s.
     (\<And>rest. \<not> fin \<Longrightarrow> pop (cond_reserve_ok s) = (False, rest) \<Longrightarrow>
        P cfg l fid rd idx fin locked (s\<lparr>cond_reserve_ok := rest\<rparr>)) \<Longrightarrow>
     (\<And>rest. \<not> fin \<Longrightarrow> pop (cond_reserve_ok s) = (True, rest) \<Longrightarrow> \<not> admissible cfg s \<Longrightarrow>
        cond_reserve_ok s \<noteq> [] \<Longrightarrow>
        P cfg l fid rd idx fin locked (s\<lparr>cond_reserve_ok := rest\<rparr>)) \<Longrightarrow>
     (\<And>rest rd' idx' fin' fps batch s1 locked' s2. \<not> fin \<Longrightarrow>
        pop (cond_reserve_ok s) = (True, rest) \<Longrightarrow> admissible cfg s \<Longrightarrow>
        put_for cfg fid batch_size rd idx [] [] (grant (s\<lparr>cond_reserve_ok := rest\<rparr>))
          = Next (rd', idx', fin', fps, batch) s1 \<Longrightarrow>
        put_dispatch l fid fps batch s1 = Next locked' s2 \<Longrightarrow>
        P cfg l fid rd' idx' fin' locked' s2) \<Longrightarrow>
     P cfg l fid rd idx fin locked s"
  shows "P cfg l fid rd idx fin locked s"
proof (induction cfg l fid rd idx fin locked s rule: put_while.induct)
  case (1 cfg l fid rd idx fin locked s)
  show ?case
  proof (rule assms, goal_cases)
    case (1 rest)
    then show ?case using "1.IH"(1)[of False rest] by simp
  next
    case (2 rest)
    then show ?case using "1.IH"(2)[of True rest] by simp
  next
    case (3 rest rd' idx' fin' fps batch s1 locked' s2)
    then show ?case
      using "1.IH"(3)[of True rest "(rd', idx', fin', fps, batch)" s1 rd' "(idx', fin', fps, batch)"
          idx' "(fin', fps, batch)" fin' "(fps, batch)" fps batch locked' s2]
      by simp
  qed
qed


lemma grant_simps [simp]:
  "memory_usage (grant s) = memory_usage s + needed_memory"
  "files (grant s) = files s" "parts (grant s) = parts s" "disk (grant s) = disk s"
  "cond_release_ok (grant s) = cond_release_ok s" "part_next_id (grant s) = part_next_id s"
  by (simp_all add: grant_def)

lemma put_while_released:
  "\<not> locked \<Longrightarrow> False \<notin> set (cond_release_ok s) \<Longrightarrow>
   put_while cfg l fid rd idx fin locked s = Some (r, s') \<Longrightarrow> memory_usage s' = memory_usage s"
proof (induction cfg l fid rd idx fin locked s rule: put_while_induct)
  case (step cfg l fid rd idx fin locked s)
  from step.prems(3) show ?case
  proof (cases rule: put_while_cases)
    case finished
    with put_finish_facts[of fid locked s r s'] step.prems(1) show ?thesis by simp
  next
    case (retry rest)
    with step.IH(1)[OF retry(1,2)] step.prems show ?thesis by simp
  next
    case hang
    then show ?thesis by simp
  next
    case (wait rest)
    with step.IH(2)[OF wait(1-4)] step.prems show ?thesis by simp
  next
    case (returned rest r0 s1)
    with put_for_Return_facts[OF returned(4)] step.prems(2) show ?thesis by simp
  next
    case (raised rest s1)
    from put_for_Raise_facts[OF raised(4)] step.prems(2)
      on_exception_facts[of True s1 r s'] raised(5)
    show ?thesis by simp
  next
    case (dispatch_raised rest rd' idx' fin' fps batch s1 s2)
    from put_for_Next_facts[OF dispatch_raised(4)] put_dispatch_Raise_facts[OF dispatch_raised(5)]
      step.prems(2) on_exception_facts[of True s2 r s'] dispatch_raised(6)
    show ?thesis by simp
  next
    case (continue rest rd' idx' fin' fps batch s1 locked' s2)
    from put_for_Next_facts[OF continue(4)] step.prems(2)
    have a: "memory_usage s1 = memory_usage s + needed_memory" "False \<notin> set (cond_release_ok s1)"
      by simp_all
    from put_dispatch_Next_facts[OF continue(5)] a
    have b: "\<not> locked'" "memory_usage s2 = memory_usage s" "False \<notin> set (cond_release_ok s2)"
      by simp_all
    from step.IH(3)[OF continue(1-5) b(1,3)] continue(6) b(2) show ?thesis by simp
  qed
qed

lemma put_while_bounded:
  "memory_usage s < memory_limit cfg \<Longrightarrow>
   put_while cfg l fid rd idx fin locked s = Some (r, s') \<Longrightarrow> memory_usage s' < memory_limit cfg"
proof (induction cfg l fid rd idx fin locked s rule: put_while_induct)
  case (step cfg l fid rd idx fin locked s)
  from step.prems(2) show ?case
  proof (cases rule: put_while_cases)
    case finished
    with put_finish_facts[of fid locked s r s'] step.prems(1) show ?thesis by simp
  next
    case (retry rest)
    with step.IH(1)[OF retry(1,2)] step.prems show ?thesis by simp
  next
    case hang
    then show ?thesis by simp
  next
    case (wait rest)
    with step.IH(2)[OF wait(1-4)] step.prems show ?thesis by simp
  next
    case (returned rest r0 s1)
    with put_for_Return_facts[OF returned(4)] show ?thesis by (simp add: admissible_def)
  next
    case (raised rest s1)
    from put_for_Raise_facts[OF raised(4)] raised(3)
      on_exception_facts[of True s1 r s'] raised(5)
    show ?thesis by (simp add: admissible_def)
  next
    case (dispatch_raised rest rd' idx' fin' fps batch s1 s2)
    from put_for_Next_facts[OF dispatch_raised(4)] put_dispatch_Raise_facts[OF dispatch_raised(5)]
      dispatch_raised(3) on_exception_facts[of True s2 r s'] dispatch_raised(6)
    show ?thesis by (simp add: admissible_def)
  next
    case (continue rest rd' idx' fin' fps batch s1 locked' s2)
    from put_for_Next_facts[OF continue(4)] put_dispatch_Next_facts[OF continue(5)] continue(3)
    have "memory_usage s2 < memory_limit cfg" by (simp add: admissible_def)
    from step.IH(3)[OF continue(1-5) this] continue(6) show ?thesis by simp
  qed
qed

lemma put_while_frame:
  "put_while cfg l fid rd idx fin locked s = Some (r, s') \<Longrightarrow>
   dom (parts s) \<subseteq> dom (parts s') \<and> (r \<noteq> Completed \<longrightarrow> files s' = files s)"
proof (induction cfg l fid rd idx fin locked s rule: put_while_induct)
  case (step cfg l fid rd idx fin locked s)
  from step.prems(1) show ?case
  proof (cases rule: put_while_cases)
    case finished
    with put_finish_facts[of fid locked s r s'] show ?thesis by simp
  next
    case (retry rest)
    with step.IH(1)[OF retry(1,2)] step.prems show ?thesis by simp
  next
    case hang
    then show ?thesis by simp
  next
    case (wait rest)
    with step.IH(2)[OF wait(1-4)] step.prems show ?thesis by simp
  next
    case (returned rest r0 s1)
    with put_for_Return_facts[OF returned(4)] show ?thesis by simp
  next
    case (raised rest s1)
    from put_for_Raise_facts[OF raised(4)] on_exception_facts[of True s1 r s'] raised(5)
    show ?thesis by simp
  next
    case (dispatch_raised rest rd' idx' fin' fps batch s1 s2)
    from put_for_Next_facts[OF dispatch_raised(4)] put_dispatch_Raise_facts[OF dispatch_raised(5)]
      on_exception_facts[of True s2 r s'] dispatch_raised(6)
    show ?thesis by auto
  next
    case (continue rest rd' idx' fin' fps batch s1 locked' s2)
    from put_for_Next_facts[OF continue(4)] put_dispatch_Next_facts[OF continue(5)]
    have a: "dom (parts s) \<subseteq> dom (parts s2)" "files s2 = files s" by auto
    from step.IH(3)[OF continue(1-5)] continue(6) a show ?thesis by auto
  qed
qed

section \<open>Get: what every run preserves\<close>

lemma get_for_Next_facts:
  "get_for nm rs s = Next () s' \<Longrightarrow>
   files s' = files s \<and> parts s' = parts s \<and> memory_usage s' = memory_usage s \<and>
   cond_release_ok s' = cond_release_ok s"
proof (induction rs arbitrary: s)
  case Nil
  then show ?case by simp
next
  case (Cons x rs)
  obtain ok data where x: "x = (ok, data)" by (cases x)
  from Cons.prems show ?case unfolding x
    by (auto split: if_splits option.splits prod.splits dest!: Cons.IH)
qed

lemma get_for_Raise_facts:
  "get_for nm rs s = Raise s' \<Longrightarrow>
   files s' = files s \<and> parts s' = parts s \<and> memory_usage s' = memory_usage s \<and>
   cond_release_ok s' = cond_release_ok s"
proof (induction rs arbitrary: s)
  case Nil
  then show ?case by simp
next
  case (Cons x rs)
  obtain ok data where x: "x = (ok, data)" by (cases x)
  from Cons.prems show ?case unfolding x
    by (auto split: if_splits option.splits prod.splits dest!: Cons.IH)
qed

lemma get_for_Return_facts:
  "get_for nm rs s = Return r s' \<Longrightarrow>
   r = HashMismatch \<and> files s' = files s \<and> parts s' = parts s \<and>
   memory_usage s' \<le> memory_usage s \<and>
   (False \<notin> set (cond_release_ok s) \<longrightarrow> memory_usage s' = memory_usage s - needed_memory)"
proof (induction rs arbitrary: s)
  case Nil
  then show ?case by simp
next
  case (Cons x rs)
  obtain ok data where x: "x = (ok, data)" by (cases x)
  show ?case
  proof (cases ok)
    case False
    with Cons.prems abort_release_facts[of HashMismatch s r s'] show ?thesis unfolding x
      by (auto split: prod.splits)
  next
    case True
    with Cons.prems show ?thesis unfolding x
      by (auto split: option.splits dest!: Cons.IH)
  qed
qed

text \<open>One iteration of the while loop of get, by cases, and the induction that follows it.\<close>

lemma get_while_cases:
  assumes "get_while cfg l nm file_parts idx locked s = res"
  obtains
    (finished) "\<not> idx * batch_size < length file_parts" and "res = Some (Completed, s)"
  | (retry) rest where "idx * batch_size < length file_parts"
      and "pop (cond_reserve_ok s) = (False, rest)"
      and "res = get_while cfg l nm file_parts idx locked (s\<lparr>cond_reserve_ok := rest\<rparr>)"
  | (hang) "idx * batch_size < length file_parts" and "\<not> admissible cfg s"
      and "cond_reserve_ok s = []" and "res = None"
  | (wait) rest where "idx * batch_size < length file_parts"
      and "pop (cond_reserve_ok s) = (True, rest)"
      and "\<not> admissible cfg s" and "cond_reserve_ok s \<noteq> []"
      and "res = get_while cfg l nm file_parts idx locked (s\<lparr>cond_reserve_ok := rest\<rparr>)"
  | (pool_failed) rest io_rest where "idx * batch_size < length file_parts"
      and "pop (cond_reserve_ok s) = (True, rest)" and "admissible cfg s"
      and "pop (io_ok s) = (False, io_rest)"
      and "res = Some (on_exception True (grant (s\<lparr>cond_reserve_ok := rest, io_ok := io_rest\<rparr>)))"
  | (read_raised) rest io_rest where "idx * batch_size < length file_parts"
      and "pop (cond_reserve_ok s) = (True, rest)" and "admissible cfg s"
      and "pop (io_ok s) = (True, io_rest)"
      and "starmap_read l (get_batch cfg file_parts idx) (disk s) = None"
      and "res = Some (on_exception True (grant (s\<lparr>cond_reserve_ok := rest, io_ok := io_rest\<rparr>)))"
  | (returned) rest io_rest rs r s2 where "idx * batch_size < length file_parts"
      and "pop (cond_reserve_ok s) = (True, rest)" and "admissible cfg s"
      and "pop (io_ok s) = (True, io_rest)"
      and "starmap_read l (get_batch cfg file_parts idx) (disk s) = Some rs"
      and "get_for nm rs (grant (s\<lparr>cond_reserve_ok := rest, io_ok := io_rest\<rparr>)) = Return r s2"
      and "res = Some (r, s2)"
  | (raised) rest io_rest rs s2 where "idx * batch_size < length file_parts"
      and "pop (cond_reserve_ok s) = (True, rest)" and "admissible cfg s"
      and "pop (io_ok s) = (True, io_rest)"
      and "starmap_read l (get_batch cfg file_parts idx) (disk s) = Some rs"
      and "get_for nm rs (grant (s\<lparr>cond_reserve_ok := rest, io_ok := io_rest\<rparr>)) = Raise s2"
      and "res = Some (on_exception True s2)"
  | (continue) rest io_rest rs s2 locked' s3 where "idx * batch_size < length file_parts"
      and "pop (cond_reserve_ok s) = (True, rest)" and "admissible cfg s"
      and "pop (io_ok s) = (True, io_rest)"
      and "starmap_read l (get_batch cfg file_parts idx) (disk s) = Some rs"
      and "get_for nm rs (grant (s\<lparr>cond_reserve_ok := rest, io_ok := io_rest\<rparr>)) = Next () s2"
      and "batch_release s2 = (locked', s3)"
      and "res = get_while cfg l nm file_parts (idx + 1) locked' s3"
proof (cases "idx * batch_size < length file_parts")
  case False
  with assms show ?thesis by (intro finished) (simp_all add: get_while.simps)
next
  case lt: True
  obtain ok rest where p1: "pop (cond_reserve_ok s) = (ok, rest)" by force
  obtain pool_ok io_rest where p2: "pop (io_ok s) = (pool_ok, io_rest)" by force
  show ?thesis
  proof (cases ok)
    case False
    with assms lt p1 show ?thesis by (intro retry[of rest]) (simp_all add: get_while.simps)
  next
    case ok: True
    show ?thesis
    proof (cases "admissible cfg s")
      case False
      show ?thesis
      proof (cases "cond_reserve_ok s = []")
        case True
        with assms lt p1 ok False show ?thesis by (intro hang) (simp_all add: get_while.simps)
      next
        case ne: False
        with assms lt p1 ok False show ?thesis by (intro wait[of rest]) (simp_all add: get_while.simps)
      qed
    next
      case adm: True
      show ?thesis
      proof (cases pool_ok)
        case False
        with assms lt p1 p2 ok adm show ?thesis
          by (intro pool_failed[of rest io_rest]) (simp_all add: get_while.simps Let_def)
      next
        case pool: True
        show ?thesis
        proof (cases "starmap_read l (get_batch cfg file_parts idx) (disk s)")
          case None
          with assms lt p1 p2 ok adm pool show ?thesis
            by (intro read_raised[of rest io_rest]) (simp_all add: get_while.simps Let_def)
        next
          case (Some rs)
          show ?thesis
          proof (cases "get_for nm rs (grant (s\<lparr>cond_reserve_ok := rest, io_ok := io_rest\<rparr>))")
            case (Return r s2)
            with assms lt p1 p2 ok adm pool Some show ?thesis
              by (intro returned[of rest io_rest rs r s2]) (simp_all add: get_while.simps Let_def)
          next
            case (Raise s2)
            with assms lt p1 p2 ok adm pool Some show ?thesis
              by (intro raised[of rest io_rest rs s2]) (simp_all add: get_while.simps Let_def)
          next
            case (Next u s2)
            obtain locked' s3 where p3: "batch_release s2 = (locked', s3)" by force
            with assms lt p1 p2 ok adm pool Some Next show ?thesis
              by (intro continue[of rest io_rest rs s2 locked' s3]) (simp_all add: get_while.simps Let_def)
          qed
        qed
      qed
    qed
  qed
qed

lemma get_while_induct [consumes 0, case_names step]:
  assumes "\<And>cfg l nm file_parts idx locked s.
     (\<And>rest. idx * batch_size < length file_parts \<Longrightarrow> pop (cond_reserve_ok s) = (False, rest) \<Longrightarrow>
        P cfg l nm file_parts idx locked (s\<lparr>cond_reserve_ok := rest\<rparr>)) \<Longrightarrow>
     (\<And>rest. idx * batch_size < length file_parts \<Longrightarrow> pop (cond_reserve_ok s) = (True, rest) \<Longrightarrow>
        \<not> admissible cfg s \<Longrightarrow> cond_reserve_ok s \<noteq> [] \<Longrightarrow>
        P cfg l nm file_parts idx locked (s\<lparr>cond_reserve_ok := rest\<rparr>)) \<Longrightarrow>
     (\<And>rest io_rest rs s2 locked' s3. idx * batch_size < length file_parts \<Longrightarrow>
        pop (cond_reserve_ok s) = (True, rest) \<Longrightarrow> admissible cfg s \<Longrightarrow>
        pop (io_ok s) = (True, io_rest) \<Longrightarrow>
        starmap_read l (get_batch cfg file_parts idx) (disk s) = Some rs \<Longrightarrow>
        get_for nm rs (grant (s\<lparr>cond_reserve_ok := rest, io_ok := io_rest\<rparr>)) = Next () s2 \<Longrightarrow>
        batch_release s2 = (locked', s3) \<Longrightarrow>
        P cfg l nm file_parts (idx + 1) locked' s3) \<Longrightarrow>
     P cfg l nm file_parts idx locked s"
  shows "P cfg l nm file_parts idx locked s"
proof (induction cfg l nm file_parts idx locked s rule: get_while.induct)
  case (1 cfg l nm file_parts idx locked s)
  show ?case
  proof (rule assms, goal_cases)
    case (1 rest)
    then show ?case using "1.IH"(1)[of False rest] by simp
  next
    case (2 rest)
    then show ?case using "1.IH"(2)[of True rest] by simp
  next
    case (3 rest io_rest rs s2 locked' s3)
    then show ?case
      using "1.IH"(3)[of True rest True io_rest "grant (s\<lparr>cond_reserve_ok := rest, io_ok := io_rest\<rparr>)"
          rs "()" s2 locked' s3]
      by simp
  qed
qed


lemma get_while_released:
  "\<not> locked \<Longrightarrow> False \<notin> set (cond_release_ok s) \<Longrightarrow>
   get_while cfg l nm file_parts idx locked s = Some (r, s') \<Longrightarrow> memory_usage s' = memory_usage s"
proof (induction cfg l nm file_parts idx locked s rule: get_while_induct)
  case (step cfg l nm file_parts idx locked s)
  from step.prems(3) show ?case
  proof (cases rule: get_while_cases)
    case finished
    then show ?thesis by simp
  next
    case (retry rest)
    with step.IH(1)[OF retry(1,2)] step.prems show ?thesis by simp
  next
    case hang
    then show ?thesis by simp
  next
    case (wait rest)
    with step.IH(2)[OF wait(1-4)] step.prems show ?thesis by simp
  next
    case (pool_failed rest io_rest)
    from pool_failed(5) have e: "on_exception True (grant (s\<lparr>cond_reserve_ok := rest, io_ok := io_rest\<rparr>)) = (r, s')"
      by simp
    from on_exception_facts[OF e] step.prems(2)
    show ?thesis by simp
  next
    case (read_raised rest io_rest)
    from read_raised(6) have e: "on_exception True (grant (s\<lparr>cond_reserve_ok := rest, io_ok := io_rest\<rparr>)) = (r, s')"
      by simp
    from on_exception_facts[OF e] step.prems(2)
    show ?thesis by simp
  next
    case (returned rest io_rest rs r0 s2)
    with get_for_Return_facts[OF returned(6)] step.prems(2) show ?thesis by simp
  next
    case (raised rest io_rest rs s2)
    from get_for_Raise_facts[OF raised(6)] step.prems(2)
      on_exception_facts[of True s2 r s'] raised(7)
    show ?thesis by simp
  next
    case (continue rest io_rest rs s2 locked' s3)
    from get_for_Next_facts[OF continue(6)] step.prems(2)
    have a: "memory_usage s2 = memory_usage s + needed_memory" "False \<notin> set (cond_release_ok s2)"
      by simp_all
    from batch_release_facts[OF continue(7)] a
    have b: "\<not> locked'" "memory_usage s3 = memory_usage s" "False \<notin> set (cond_release_ok s3)"
      by simp_all
    from step.IH(3)[OF continue(1-7) b(1,3)] continue(8) b(2) show ?thesis by simp
  qed
qed

lemma get_while_bounded:
  "memory_usage s < memory_limit cfg \<Longrightarrow>
   get_while cfg l nm file_parts idx locked s = Some (r, s') \<Longrightarrow> memory_usage s' < memory_limit cfg"
proof (induction cfg l nm file_parts idx locked s rule: get_while_induct)
  case (step cfg l nm file_parts idx locked s)
  from step.prems(2) show ?case
  proof (cases rule: get_while_cases)
    case finished
    with step.prems(1) show ?thesis by simp
  next
    case (retry rest)
    with step.IH(1)[OF retry(1,2)] step.prems show ?thesis by simp
  next
    case hang
    then show ?thesis by simp
  next
    case (wait rest)
    with step.IH(2)[OF wait(1-4)] step.prems show ?thesis by simp
  next
    case (pool_failed rest io_rest)
    from pool_failed(5) have e: "on_exception True (grant (s\<lparr>cond_reserve_ok := rest, io_ok := io_rest\<rparr>)) = (r, s')"
      by simp
    from on_exception_facts[OF e] pool_failed(3)
    show ?thesis by (simp add: admissible_def)
  next
    case (read_raised rest io_rest)
    from read_raised(6) have e: "on_exception True (grant (s\<lparr>cond_reserve_ok := rest, io_ok := io_rest\<rparr>)) = (r, s')"
      by simp
    from on_exception_facts[OF e] read_raised(3)
    show ?thesis by (simp add: admissible_def)
  next
    case (returned rest io_rest rs r0 s2)
    with get_for_Return_facts[OF returned(6)] show ?thesis by (simp add: admissible_def)
  next
    case (raised rest io_rest rs s2)
    from get_for_Raise_facts[OF raised(6)] raised(3)
      on_exception_facts[of True s2 r s'] raised(7)
    show ?thesis by (simp add: admissible_def)
  next
    case (continue rest io_rest rs s2 locked' s3)
    from get_for_Next_facts[OF continue(6)] batch_release_facts[OF continue(7)] continue(3)
    have "memory_usage s3 < memory_limit cfg" by (simp add: admissible_def)
    from step.IH(3)[OF continue(1-7) this] continue(8) show ?thesis by simp
  qed
qed

lemma get_while_frame:
  "get_while cfg l nm file_parts idx locked s = Some (r, s') \<Longrightarrow>
   parts s' = parts s \<and> files s' = files s"
proof (induction cfg l nm file_parts idx locked s rule: get_while_induct)
  case (step cfg l nm file_parts idx locked s)
  from step.prems(1) show ?case
  proof (cases rule: get_while_cases)
    case finished
    then show ?thesis by simp
  next
    case (retry rest)
    with step.IH(1)[OF retry(1,2)] step.prems show ?thesis by simp
  next
    case hang
    then show ?thesis by simp
  next
    case (wait rest)
    with step.IH(2)[OF wait(1-4)] step.prems show ?thesis by simp
  next
    case (pool_failed rest io_rest)
    from pool_failed(5) have e: "on_exception True (grant (s\<lparr>cond_reserve_ok := rest, io_ok := io_rest\<rparr>)) = (r, s')"
      by simp
    from on_exception_facts[OF e]
    show ?thesis by simp
  next
    case (read_raised rest io_rest)
    from read_raised(6) have e: "on_exception True (grant (s\<lparr>cond_reserve_ok := rest, io_ok := io_rest\<rparr>)) = (r, s')"
      by simp
    from on_exception_facts[OF e]
    show ?thesis by simp
  next
    case (returned rest io_rest rs r0 s2)
    with get_for_Return_facts[OF returned(6)] show ?thesis by simp
  next
    case (raised rest io_rest rs s2)
    from get_for_Raise_facts[OF raised(6)] on_exception_facts[of True s2 r s'] raised(7)
    show ?thesis by simp
  next
    case (continue rest io_rest rs s2 locked' s3)
    from get_for_Next_facts[OF continue(6)] batch_release_facts[OF continue(7)]
    have a: "parts s3 = parts s" "files s3 = files s" by simp_all
    from step.IH(3)[OF continue(1-7)] continue(8) a show ?thesis by simp
  qed
qed

section \<open>The handlers, by cases\<close>

lemma handle_put_cases:
  assumes "handle_put_command cfg l file_name s = res"
  obtains
    (lock_timeout) rest where "pop (file_lock_ok s) = (False, rest)"
      and "res = Some (FileIdLockTimeout, s\<lparr>file_lock_ok := rest\<rparr>)"
  | (open_failed) rest open_ok io_rest where "pop (file_lock_ok s) = (True, rest)"
      and "pop (io_ok s) = (open_ok, io_rest)"
      and "\<not> open_ok \<or> disk s file_name = None"
      and "res = Some (on_exception False
             (s\<lparr>file_lock_ok := rest, file_next_id := file_next_id s + 1,
                files := (files s)(file_next_id s \<mapsto>
                  \<lparr>file_id = file_next_id s, name = file_name, status = False, part_count = 0\<rparr>),
                io_ok := io_rest\<rparr>))"
  | (opened) rest io_rest content where "pop (file_lock_ok s) = (True, rest)"
      and "pop (io_ok s) = (True, io_rest)"
      and "disk s file_name = Some content"
      and "res = put_while cfg l (file_next_id s) content 0 False False
             (s\<lparr>file_lock_ok := rest, file_next_id := file_next_id s + 1,
                files := (files s)(file_next_id s \<mapsto>
                  \<lparr>file_id = file_next_id s, name = file_name, status = False, part_count = 0\<rparr>),
                io_ok := io_rest, parts := (parts s)(file_next_id s \<mapsto> [])\<rparr>)"
proof -
  obtain ok rest where p1: "pop (file_lock_ok s) = (ok, rest)" by force
  obtain open_ok io_rest where p2: "pop (io_ok s) = (open_ok, io_rest)" by force
  show thesis
  proof (cases ok)
    case False
    with assms p1 show ?thesis
      by (intro lock_timeout[of rest]) (simp_all add: handle_put_command_def)
  next
    case ok: True
    show ?thesis
    proof (cases "open_ok \<and> disk s file_name \<noteq> None")
      case False
      with assms p1 p2 ok show ?thesis
        by (intro open_failed[of rest open_ok io_rest])
           (auto simp add: handle_put_command_def Let_def)
    next
      case True
      then obtain content where "disk s file_name = Some content" by auto
      with assms p1 p2 ok True show ?thesis
        by (intro opened[of rest io_rest content]) (simp_all add: handle_put_command_def Let_def)
    qed
  qed
qed

lemma handle_get_cases:
  assumes "handle_get_command cfg l fid s = res"
  obtains
    (not_found) "files s fid = None" and "res = Some (NotFound, s)"
  | (not_ready) fl where "files s fid = Some fl" and "\<not> status fl" and "res = Some (NotReady, s)"
  | (no_parts) fl where "files s fid = Some fl" and "status fl"
      and "parts s (file_id fl) = None" and "res = Some (Uncaught, s)"
  | (open_failed) fl file_parts io_rest where "files s fid = Some fl" and "status fl"
      and "parts s (file_id fl) = Some file_parts" and "pop (io_ok s) = (False, io_rest)"
      and "res = Some (on_exception False (s\<lparr>io_ok := io_rest\<rparr>))"
  | (opened) fl file_parts io_rest where "files s fid = Some fl" and "status fl"
      and "parts s (file_id fl) = Some file_parts" and "pop (io_ok s) = (True, io_rest)"
      and "res = get_while cfg l (name fl) file_parts 0 False
                   (s\<lparr>io_ok := io_rest, disk := (disk s)(name fl \<mapsto> [])\<rparr>)"
proof (cases "files s fid")
  case None
  with assms show ?thesis by (intro not_found) (simp_all add: handle_get_command_def)
next
  case (Some fl)
  obtain open_ok io_rest where p: "pop (io_ok s) = (open_ok, io_rest)" by force
  show ?thesis
  proof (cases "status fl")
    case False
    with assms Some show ?thesis by (intro not_ready[of fl]) (simp_all add: handle_get_command_def)
  next
    case st: True
    show ?thesis
    proof (cases "parts s (file_id fl)")
      case None
      with assms Some st show ?thesis
        by (intro no_parts[of fl]) (simp_all add: handle_get_command_def)
    next
      case ps: (Some file_parts)
      show ?thesis
      proof (cases open_ok)
        case False
        with assms Some st ps p show ?thesis
          by (intro open_failed[of fl file_parts io_rest]) (simp_all add: handle_get_command_def)
      next
        case True
        with assms Some st ps p show ?thesis
          by (intro opened[of fl file_parts io_rest]) (simp_all add: handle_get_command_def)
      qed
    qed
  qed
qed

lemma handle_put_released:
  assumes "False \<notin> set (cond_release_ok s)"
    and "handle_put_command cfg l file_name s = Some (r, s')"
  shows "memory_usage s' = memory_usage s"
  using assms(2)
proof (cases rule: handle_put_cases)
  case (lock_timeout rest)
  then show ?thesis by auto
next
  case (open_failed rest open_ok io_rest)
  then show ?thesis by (auto simp: on_exception_def)
next
  case (opened rest io_rest content)
  from put_while_released[OF _ _ opened(4)[symmetric]] assms(1) show ?thesis by simp
qed

lemma handle_get_released:
  assumes "False \<notin> set (cond_release_ok s)"
    and "handle_get_command cfg l fid s = Some (r, s')"
  shows "memory_usage s' = memory_usage s"
  using assms(2)
proof (cases rule: handle_get_cases)
  case (opened fl file_parts io_rest)
  from get_while_released[OF _ _ opened(5)[symmetric]] assms(1) show ?thesis by simp
qed (auto simp: on_exception_def)


lemma needed_memory_val: "needed_memory = 10240"
  by (simp add: needed_memory_def part_size_def batch_size_def)

lemma put_eval0:
  "map_option fst (handle_put_command ex_cfg ex_lib ''a.txt'' put_state) = Some Completed"
  by code_simp

lemma put_eval:
  "\<exists>s'. handle_put_command ex_cfg ex_lib ''a.txt'' put_state = Some (Completed, s')"
  using put_eval0 by (cases "handle_put_command ex_cfg ex_lib ''a.txt'' put_state") auto

lemma leak_eval0:
  "map_option fst (handle_put_command ex_cfg ex_lib ''a.txt'' leak_state) = Some PartIdLockTimeout"
  by code_simp

lemma leak_eval:
  "\<exists>s'. handle_put_command ex_cfg ex_lib ''a.txt'' leak_state = Some (PartIdLockTimeout, s')"
  using leak_eval0 by (cases "handle_put_command ex_cfg ex_lib ''a.txt'' leak_state") auto

section \<open>Release of reservations\<close>

text \<open>
  C3, as the code has it. The claim: on every exit path of a put or a get every
  reservation has been released. Every release first acquires the lock of the condition
  with a timeout of 5, and on a timeout the code gives up (\<^verbatim>\<open>Could not release locked
  memory.\<close>, or \<^verbatim>\<open>continue\<close> at the end of a batch) with the usage still raised. What
  holds: if no acquisition of the condition for a release times out, then whenever a put
  or a get returns, by whatever path, the usage is what it was before.
\<close>

theorem reservation_released_when_release_lock_acquired:
  "False \<notin> set (cond_release_ok s) \<Longrightarrow>
   (handle_put_command cfg l file_name s = Some (r, s') \<longrightarrow> memory_usage s' = memory_usage s) \<and>
   (handle_get_command cfg l fid s = Some (r2, s2) \<longrightarrow> memory_usage s2 = memory_usage s)"
  using handle_put_released handle_get_released by blast

text \<open>
  An instance: the put of \<^verbatim>\<open>a.txt\<close> completes, a get of an unknown id returns, both with
  the usage unchanged.
\<close>

theorem reservation_released_witness:
  "False \<notin> set (cond_release_ok put_state) \<and>
   map_option (\<lambda>(r, s'). (r, memory_usage s')) (handle_put_command ex_cfg ex_lib ''a.txt'' put_state)
     = Some (Completed, memory_usage put_state) \<and>
   map_option (\<lambda>(r, s'). (r, memory_usage s')) (handle_get_command ex_cfg ex_lib 0 put_state)
     = Some (NotFound, memory_usage put_state)"
proof -
  have h: "False \<notin> set (cond_release_ok put_state)"
    by (simp add: put_state_def init_state_def)
  obtain s' where e: "handle_put_command ex_cfg ex_lib ''a.txt'' put_state = Some (Completed, s')"
    using put_eval by blast
  have g: "handle_get_command ex_cfg ex_lib 0 put_state = Some (NotFound, put_state)"
    by (simp add: handle_get_command_def put_state_def init_state_def)
  from reservation_released_when_release_lock_acquired[OF h, of ex_cfg ex_lib "''a.txt''" Completed s' 0 NotFound put_state]
    e g h
  show ?thesis by simp
qed

text \<open>
  C3 as stated fails: on \<open>leak_state\<close> the put reserves 10240 bytes, the part id lock
  times out inside the reserved batch (line 137), the acquisition of line 139 times out
  too, and the put returns at line 141 with the reservation still counted.
\<close>

theorem put_keeps_reservation_counterexample:
  "memory_usage leak_state = 0 \<and>
   map_option (\<lambda>(r, s'). (r, memory_usage s')) (handle_put_command ex_cfg ex_lib ''a.txt'' leak_state)
     = Some (PartIdLockTimeout, 10240)"
  by code_simp

section \<open>A failed put\<close>

text \<open>
  C6. Whenever a put returns otherwise than by normal completion, and has got past the
  file id lock (so that it registered its file), the File Registry is the one before the
  put plus the entry of the new file, with \<^verbatim>\<open>status = False\<close> and \<^verbatim>\<open>part_count = 0\<close>:
  nothing is removed and the status is not set.
\<close>

theorem failed_put_stays_registered_incomplete:
  assumes "handle_put_command cfg l file_name s = Some (r, s')"
    and "r \<noteq> Completed" and "r \<noteq> FileIdLockTimeout"
  shows "files s' = (files s)(file_next_id s \<mapsto>
           \<lparr>file_id = file_next_id s, name = file_name, status = False, part_count = 0\<rparr>)"
  using assms(1)
proof (cases rule: handle_put_cases)
  case (lock_timeout rest)
  with assms(3) show ?thesis by simp
next
  case (open_failed rest open_ok io_rest)
  then show ?thesis by (auto simp: on_exception_def)
next
  case (opened rest io_rest content)
  from put_while_frame[OF opened(4)[symmetric]] assms(2) show ?thesis by simp
qed

text \<open>An instance: the put that stops at the part id lock leaves file 0 registered, not ready.\<close>

theorem failed_put_stays_registered_witness:
  "map_option (\<lambda>(r, s'). (r, files s' 0)) (handle_put_command ex_cfg ex_lib ''a.txt'' leak_state)
     = Some (PartIdLockTimeout, Some \<lparr>file_id = 0, name = ''a.txt'', status = False, part_count = 0\<rparr>)"
proof -
  obtain s' where e: "handle_put_command ex_cfg ex_lib ''a.txt'' leak_state = Some (PartIdLockTimeout, s')"
    using leak_eval by blast
  from failed_put_stays_registered_incomplete[OF e] e show ?thesis
    by (simp add: leak_state_def init_state_def)
qed

section \<open>The memory bound\<close>

lemma handle_put_bounded:
  assumes "memory_usage s < memory_limit cfg"
    and "handle_put_command cfg l file_name s = Some (r, s')"
  shows "memory_usage s' < memory_limit cfg"
  using assms(2)
proof (cases rule: handle_put_cases)
  case (lock_timeout rest)
  with assms(1) show ?thesis by auto
next
  case (open_failed rest open_ok io_rest)
  with assms(1) show ?thesis by (auto simp: on_exception_def)
next
  case (opened rest io_rest content)
  from put_while_bounded[OF _ opened(4)[symmetric]] assms(1) show ?thesis by simp
qed

lemma handle_get_bounded:
  assumes "memory_usage s < memory_limit cfg"
    and "handle_get_command cfg l fid s = Some (r, s')"
  shows "memory_usage s' < memory_limit cfg"
  using assms(2)
proof (cases rule: handle_get_cases)
  case (opened fl file_parts io_rest)
  from get_while_bounded[OF _ opened(5)[symmetric]] assms(1) show ?thesis by simp
qed (use assms(1) in \<open>auto simp: on_exception_def\<close>)

lemma mem_step_bounded:
  "memory_usage s < memory_limit cfg \<Longrightarrow> memory_usage (mem_step cfg e s) < memory_limit cfg"
  using needed_memory_pos by (cases e) (auto simp: admissible_def grant_def release_def)

lemma mem_trace_bounded:
  "memory_usage s < memory_limit cfg \<Longrightarrow> s' \<in> set (mem_trace cfg es s) \<Longrightarrow>
   memory_usage s' < memory_limit cfg"
proof (induction es arbitrary: s)
  case Nil
  then show ?case by simp
next
  case (Cons e es)
  from Cons.prems(2) have "s' = s \<or> s' \<in> set (mem_trace cfg es (mem_step cfg e s))" by simp
  then show ?case
  proof
    assume "s' = s"
    with Cons.prems(1) show ?thesis by simp
  next
    assume "s' \<in> set (mem_trace cfg es (mem_step cfg e s))"
    with Cons.IH[OF mem_step_bounded[OF Cons.prems(1)]] show ?thesis by simp
  qed
qed

text \<open>
  C4. A reservation is granted only when \<open>usage + amount < limit\<close> and then adds the
  amount, so the usage is below the limit after every grant; and from a state with the
  usage below the limit (the initial usage is 0, so any positive limit) the usage stays
  below it: in every state of every interleaving of reservations and releases, and after
  every put and every get, whatever path they take.
\<close>

theorem usage_stays_below_limit:
  "memory_usage s < memory_limit cfg \<Longrightarrow>
   (admissible cfg s \<longrightarrow>
      memory_usage (grant s) = memory_usage s + needed_memory \<and>
      memory_usage (grant s) < memory_limit cfg) \<and>
   (\<forall>s' \<in> set (mem_trace cfg es s). memory_usage s' < memory_limit cfg) \<and>
   (handle_put_command cfg l file_name s = Some (r, s1) \<longrightarrow> memory_usage s1 < memory_limit cfg) \<and>
   (handle_get_command cfg l fid s = Some (r2, s2) \<longrightarrow> memory_usage s2 < memory_limit cfg)"
proof -
  assume h: "memory_usage s < memory_limit cfg"
  have a: "admissible cfg s \<longrightarrow>
      memory_usage (grant s) = memory_usage s + needed_memory \<and>
      memory_usage (grant s) < memory_limit cfg"
    by (simp add: admissible_def)
  have b: "\<forall>s' \<in> set (mem_trace cfg es s). memory_usage s' < memory_limit cfg"
    using mem_trace_bounded[OF h] by blast
  have c: "handle_put_command cfg l file_name s = Some (r, s1) \<longrightarrow> memory_usage s1 < memory_limit cfg"
    using handle_put_bounded[OF h] by blast
  have d: "handle_get_command cfg l fid s = Some (r2, s2) \<longrightarrow> memory_usage s2 < memory_limit cfg"
    using handle_get_bounded[OF h] by blast
  from a b c d show ?thesis by blast
qed

text \<open>An instance: two reservations and a release on the fresh system, and a completed put.\<close>

theorem usage_stays_below_limit_witness:
  "memory_usage put_state < memory_limit ex_cfg \<and> admissible ex_cfg put_state \<and>
   memory_usage (grant put_state) = 10240 \<and>
   map memory_usage (mem_trace ex_cfg [Reserve, Reserve, Release] put_state) = [0, 10240, 20480, 10240] \<and>
   list_all (\<lambda>s'. memory_usage s' < memory_limit ex_cfg)
     (mem_trace ex_cfg [Reserve, Reserve, Release] put_state) \<and>
   map_option (\<lambda>(r, s'). (r, memory_usage s' < memory_limit ex_cfg))
     (handle_put_command ex_cfg ex_lib ''a.txt'' put_state) = Some (Completed, True)"
proof -
  have h: "memory_usage put_state < memory_limit ex_cfg"
    by (simp add: put_state_def init_state_def ex_cfg_def)
  obtain s' where e: "handle_put_command ex_cfg ex_lib ''a.txt'' put_state = Some (Completed, s')"
    using put_eval by blast
  have a: "admissible ex_cfg put_state"
    by (simp add: admissible_def put_state_def init_state_def ex_cfg_def needed_memory_val)
  have t: "map memory_usage (mem_trace ex_cfg [Reserve, Reserve, Release] put_state) = [0, 10240, 20480, 10240]"
    by (simp add: admissible_def grant_def release_def put_state_def init_state_def ex_cfg_def needed_memory_val)
  from usage_stays_below_limit[OF h, of "[Reserve, Reserve, Release]" ex_lib "''a.txt''" Completed s' 0 NotFound put_state]
    h e a t
  show ?thesis by (simp add: list_all_iff needed_memory_val)
qed

section \<open>The part registry\<close>

text \<open>Facts about one batch of delete and about the loop over the batches.\<close>

lemma map_delete_length: "map_delete ps d = (rs, d') \<Longrightarrow> length rs = length ps"
proof (induction ps arbitrary: d rs)
  case Nil
  then show ?case by simp
next
  case (Cons p ps)
  from Cons.prems show ?case
    by (auto split: prod.splits dest: Cons.IH)
qed

lemma delete_for_facts:
  "delete_for idx n i rs ps errs = Some (ps', errs') \<Longrightarrow>
   errs \<le> errs' \<and> (errs' = errs \<longrightarrow> length ps' + length rs = length ps)"
proof (induction rs arbitrary: i ps errs)
  case Nil
  then show ?case by simp
next
  case (Cons b rs)
  show ?case
  proof (cases b)
    case True
    with Cons.prems
    have lt: "idx * batch_size + n - i - 1 < length ps"
      and rec: "delete_for idx n (i + 1) rs
                 (take (idx * batch_size + n - i - 1) ps @ drop (Suc (idx * batch_size + n - i - 1)) ps)
                 errs = Some (ps', errs')"
      by (auto simp: Let_def split: if_splits)
    from Cons.IH[OF rec] lt show ?thesis by auto
  next
    case False
    with Cons.prems have rec: "delete_for idx n (i + 1) rs ps (errs + 1) = Some (ps', errs')"
      by simp
    from Cons.IH[OF rec] show ?thesis by auto
  qed
qed

lemma mark_deleted_length [simp]: "length (mark_deleted a b ps) = length ps"
proof -
  have "length (fold (\<lambda>j qs. qs[j := (qs ! j)\<lparr>part_status := False\<rparr>]) js ps) = length ps" for js
    by (induction js arbitrary: ps) simp_all
  then show ?thesis by (simp add: mark_deleted_def)
qed

lemma delete_batch_Next:
  assumes "delete_batch cfg fid idx errs s = Next errs' s'"
  obtains ps res d ps' io_rest where "parts s fid = Some ps"
    and "map_delete (map (\<lambda>part. parts_directory cfg @ path part)
           (take (batch_end idx (length ps) - idx * batch_size) (drop (idx * batch_size) ps))) (disk s)
         = (res, d)"
    and "delete_for idx (length res) 0 res
           (mark_deleted (idx * batch_size) (batch_end idx (length ps)) ps) errs = Some (ps', errs')"
    and "s' = s\<lparr>io_ok := io_rest, disk := d, parts := (parts s)(fid \<mapsto> ps')\<rparr>"
  using assms unfolding delete_batch_def Let_def
  by (auto split: option.splits prod.splits if_splits)

lemma delete_batch_facts:
  assumes "delete_batch cfg fid idx errs s = Next errs' s'"
  shows "files s' = files s \<and> dom (parts s') = dom (parts s) \<and> errs \<le> errs' \<and>
         memory_usage s' = memory_usage s \<and>
         (\<exists>ps ps'. parts s fid = Some ps \<and> parts s' fid = Some ps' \<and>
            (errs' = errs \<longrightarrow> length ps \<le> (idx + 1) * batch_size \<longrightarrow> length ps' \<le> idx * batch_size))"
  using assms
proof (cases rule: delete_batch_Next)
  case (1 ps res d ps' io_rest)
  from map_delete_length[OF 1(2)]
  have lr: "length res = min (length ps - idx * batch_size) (batch_end idx (length ps) - idx * batch_size)"
    by simp
  from delete_for_facts[OF 1(3)] have le: "errs \<le> errs'"
    and len: "errs' = errs \<Longrightarrow> length ps' + length res = length ps" by auto
  have dom: "dom (parts s') = dom (parts s)"
    using 1(1) by (auto simp: 1(4))
  have bound: "length ps' \<le> idx * batch_size"
    if "errs' = errs" "length ps \<le> (idx + 1) * batch_size"
  proof -
    from that(2) have "batch_end idx (length ps) = length ps" by (simp add: batch_end_def)
    with len[OF that(1)] lr show ?thesis by simp
  qed
  from 1(1) le dom bound show ?thesis by (simp add: 1(4))
qed

lemma delete_batch_not_Return: "delete_batch cfg fid idx errs s \<noteq> Return r s'"
  by (auto simp: delete_batch_def Let_def split: option.splits prod.splits)

lemma delete_batch_Raise_dom:
  "delete_batch cfg fid idx errs s = Raise s' \<Longrightarrow> dom (parts s) \<subseteq> dom (parts s')"
  by (auto simp: delete_batch_def Let_def split: option.splits prod.splits if_splits)

lemma delete_while_dom:
  "delete_while cfg fid idx errs s = (r, errs', s') \<Longrightarrow> dom (parts s) \<subseteq> dom (parts s')"
proof (induction idx arbitrary: errs s)
  case 0
  then show ?case
    by (cases "delete_batch cfg fid 0 errs s")
       (auto simp: delete_batch_not_Return dest: delete_batch_facts delete_batch_Raise_dom)
next
  case (Suc idx)
  show ?case
  proof (cases "delete_batch cfg fid (Suc idx) errs s")
    case (Next e1 s1)
    with Suc.prems have "delete_while cfg fid idx e1 s1 = (r, errs', s')" by simp
    from Suc.IH[OF this] delete_batch_facts[OF Next] show ?thesis by auto
  next
    case (Return r0 s1)
    then show ?thesis by (simp add: delete_batch_not_Return)
  next
    case (Raise s1)
    with Suc.prems delete_batch_Raise_dom[OF Raise] show ?thesis by auto
  qed
qed

lemma delete_while_completed:
  "delete_while cfg fid idx errs s = (Completed, errs', s') \<Longrightarrow>
   files s' = files s \<and> dom (parts s') = dom (parts s) \<and> errs \<le> errs' \<and>
   (\<exists>ps ps'. parts s fid = Some ps \<and> parts s' fid = Some ps' \<and>
      (errs' = errs \<longrightarrow> length ps \<le> (idx + 1) * batch_size \<longrightarrow> ps' = []))"
proof (induction idx arbitrary: errs s)
  case 0
  show ?case
  proof (cases "delete_batch cfg fid 0 errs s")
    case (Next e1 s1)
    with "0.prems" have "e1 = errs'" "s1 = s'" by simp_all
    with delete_batch_facts[OF Next] show ?thesis by auto
  next
    case (Return r0 s1)
    then show ?thesis by (simp add: delete_batch_not_Return)
  next
    case (Raise s1)
    with "0.prems" show ?thesis by simp
  qed
next
  case (Suc idx)
  show ?case
  proof (cases "delete_batch cfg fid (Suc idx) errs s")
    case (Next e1 s1)
    with Suc.prems have rec: "delete_while cfg fid idx e1 s1 = (Completed, errs', s')" by simp
    from delete_batch_facts[OF Next] obtain ps ps1 where
      a: "files s1 = files s" "dom (parts s1) = dom (parts s)" "errs \<le> e1"
         "parts s fid = Some ps" "parts s1 fid = Some ps1"
      and b: "e1 = errs \<Longrightarrow> length ps \<le> (Suc idx + 1) * batch_size \<Longrightarrow> length ps1 \<le> Suc idx * batch_size"
      by auto
    from Suc.IH[OF rec] obtain ps' where
      c: "files s' = files s1" "dom (parts s') = dom (parts s1)" "e1 \<le> errs'" "parts s' fid = Some ps'"
      and d: "errs' = e1 \<Longrightarrow> length ps1 \<le> (idx + 1) * batch_size \<Longrightarrow> ps' = []"
      using a(5) by auto
    have "ps' = []" if "errs' = errs" "length ps \<le> (Suc idx + 1) * batch_size"
    proof -
      from that(1) a(3) c(3) have e: "e1 = errs" "errs' = e1" by simp_all
      from b[OF e(1) that(2)] d[OF e(2)] show ?thesis by simp
    qed
    with a c show ?thesis by auto
  next
    case (Return r0 s1)
    then show ?thesis by (simp add: delete_batch_not_Return)
  next
    case (Raise s1)
    with Suc.prems show ?thesis by simp
  qed
qed

lemma handle_delete_Completed:
  assumes "handle_delete_command cfg fid s = (Completed, errs, s')"
  obtains fl ps s2 where "files s fid = Some fl" and "parts s (file_id fl) = Some ps"
    and "delete_while cfg (file_id fl) (length ps div batch_size) 0
           (s\<lparr>files := (files s)(fid \<mapsto> fl\<lparr>status := False\<rparr>)\<rparr>) = (Completed, errs, s2)"
    and "s' = s2\<lparr>files := (files s2)(fid := None)\<rparr>"
  using assms unfolding handle_delete_command_def Let_def
  by (auto split: option.splits prod.splits if_splits)

lemma handle_delete_dom:
  assumes "handle_delete_command cfg fid s = (r, errs, s')"
  shows "dom (parts s) \<subseteq> dom (parts s')"
proof (cases "files s fid")
  case None
  with assms show ?thesis by (simp add: handle_delete_command_def)
next
  case (Some fl)
  show ?thesis
  proof (cases "status fl \<and> parts s (file_id fl) \<noteq> None")
    case False
    with assms Some show ?thesis
      by (auto simp: handle_delete_command_def Let_def split: if_splits)
  next
    case True
    then obtain ps where ps: "parts s (file_id fl) = Some ps" and st: "status fl" by auto
    obtain r0 e0 s2 where w: "delete_while cfg (file_id fl) (length ps div batch_size) 0
        (s\<lparr>files := (files s)(fid \<mapsto> fl\<lparr>status := False\<rparr>)\<rparr>) = (r0, e0, s2)"
      by (metis prod_cases3)
    from delete_while_dom[OF w] have d: "dom (parts s) \<subseteq> dom (parts s2)" by simp
    from assms Some ps st w have "parts s' = parts s2"
      by (auto simp: handle_delete_command_def Let_def split: if_splits option.splits)
    with d show ?thesis by simp
  qed
qed

lemma handle_delete_completed_facts:
  assumes "handle_delete_command cfg fid s = (Completed, errs, s')"
  shows "files s' = (files s)(fid := None) \<and> dom (parts s') = dom (parts s) \<and>
         (\<exists>fl residual. files s fid = Some fl \<and> parts s' (file_id fl) = Some residual \<and>
            (errs = 0 \<longrightarrow> residual = []))"
  using assms
proof (cases rule: handle_delete_Completed)
  case (1 fl ps s2)
  have le: "length ps \<le> (length ps div batch_size + 1) * batch_size"
    by (simp add: batch_size_def)
  from delete_while_completed[OF 1(3)] 1(2) le obtain ps' where
    a: "files s2 = (files s)(fid \<mapsto> fl\<lparr>status := False\<rparr>)" "dom (parts s2) = dom (parts s)"
       "parts s2 (file_id fl) = Some ps'" and b: "errs = 0 \<Longrightarrow> ps' = []"
    by auto
  from a b 1(1) show ?thesis by (auto simp: 1(4))
qed

lemma handle_put_dom:
  assumes "handle_put_command cfg l nm s = Some (r, s')"
  shows "dom (parts s) \<subseteq> dom (parts s')"
  using assms
proof (cases rule: handle_put_cases)
  case (lock_timeout rest)
  then show ?thesis by auto
next
  case (open_failed rest open_ok io_rest)
  then show ?thesis by (auto simp: on_exception_def)
next
  case (opened rest io_rest content)
  from put_while_frame[OF opened(4)[symmetric]] show ?thesis by auto
qed

lemma handle_get_parts:
  assumes "handle_get_command cfg l fid s = Some (r, s')"
  shows "parts s' = parts s"
  using assms
proof (cases rule: handle_get_cases)
  case (opened fl file_parts io_rest)
  from get_while_frame[OF opened(5)[symmetric]] show ?thesis by simp
qed (auto simp: on_exception_def)

lemma del_ok_eval:
  "(case handle_delete_command ex_cfg 0 del_ok_state of (r, errs, s) \<Rightarrow>
      (r, errs, parts s 0, files s 0, disk s ''parts/0_0.PART'', disk s ''parts/0_1.PART''))
   = (Completed, 0, Some [], None, None, None)"
  by code_simp

text \<open>
  C10. After a delete that completes, the File Registry has lost exactly the entry under
  the given file id, and the Part Registry has the same keys as before: the id of the file
  is still a key there, mapped to the residual part sequence, which is empty when no
  removal was reported as failed. No operation deletes a key of the Part Registry: a
  delete with any result and a put keep every key, and a get leaves the Part Registry as
  it was.
\<close>

theorem part_registry_key_never_deleted:
  "(handle_delete_command cfg fid s = (r, errs, s') \<longrightarrow>
      dom (parts s) \<subseteq> dom (parts s') \<and>
      (r = Completed \<longrightarrow>
         files s' = (files s)(fid := None) \<and> dom (parts s') = dom (parts s) \<and>
         (\<exists>fl residual. files s fid = Some fl \<and> parts s' (file_id fl) = Some residual \<and>
            (errs = 0 \<longrightarrow> residual = [])))) \<and>
   (handle_put_command cfg l file_name s = Some (r1, s1) \<longrightarrow> dom (parts s) \<subseteq> dom (parts s1)) \<and>
   (handle_get_command cfg l fid s = Some (r2, s2) \<longrightarrow> parts s2 = parts s)"
proof -
  have a: "dom (parts s) \<subseteq> dom (parts s')" if "handle_delete_command cfg fid s = (r, errs, s')"
    using handle_delete_dom[OF that] .
  have b: "files s' = (files s)(fid := None) \<and> dom (parts s') = dom (parts s) \<and>
         (\<exists>fl residual. files s fid = Some fl \<and> parts s' (file_id fl) = Some residual \<and>
            (errs = 0 \<longrightarrow> residual = []))"
    if "handle_delete_command cfg fid s = (r, errs, s')" "r = Completed"
    using handle_delete_completed_facts[of cfg fid s errs s'] that by simp
  have c: "dom (parts s) \<subseteq> dom (parts s1)" if "handle_put_command cfg l file_name s = Some (r1, s1)"
    using handle_put_dom[OF that] .
  have d: "parts s2 = parts s" if "handle_get_command cfg l fid s = Some (r2, s2)"
    using handle_get_parts[OF that] .
  from a b c d show ?thesis by blast
qed

text \<open>
  An instance: the delete of file 0 on \<open>del_ok_state\<close> completes without a failed
  removal; file 0 is gone from the File Registry and the Part Registry maps 0 to the empty
  sequence.
\<close>

theorem part_registry_key_never_deleted_witness:
  "(case handle_delete_command ex_cfg 0 del_ok_state of (r, errs, s') \<Rightarrow>
      r = Completed \<and> errs = 0 \<and> files s' = (files del_ok_state)(0 := None) \<and>
      dom (parts s') = dom (parts del_ok_state) \<and> parts s' 0 = Some [])"
proof -
  obtain r errs s' where e: "handle_delete_command ex_cfg 0 del_ok_state = (r, errs, s')"
    by (metis prod_cases3)
  from del_ok_eval e have v: "r = Completed" "errs = 0" "parts s' 0 = Some []" by simp_all
  have f: "files del_ok_state 0 = Some \<lparr>file_id = 0, name = ''a.txt'', status = True, part_count = 2\<rparr>"
    by (simp add: del_ok_state_def del_state_def)
  from part_registry_key_never_deleted[of ex_cfg 0 del_ok_state r errs s' ex_lib "''a.txt''" Completed s' Completed s']
    e v f
  show ?thesis by auto
qed

end
